theory Spec2Isabelle
  imports Complex_Main "HOL-Library.Log_Nat" "HOL-Library.Sublist"
begin

section \<open>Go integers\<close>

text \<open>
  Go's \<open>int\<close> is a 64-bit two's complement integer on the supported platforms.  It is
  modelled as an \<open>int\<close> together with the wrap-around written out: every arithmetic
  operation of the source whose exact result may leave the 64-bit range goes through
  \<open>wrap64\<close>.
\<close>

definition in64 :: "int \<Rightarrow> bool" where
  "in64 x \<longleftrightarrow> - (2 ^ 63) \<le> x \<and> x < 2 ^ 63"

definition wrap64 :: "int \<Rightarrow> int" where
  "wrap64 x = (x + 2 ^ 63) mod 2 ^ 64 - 2 ^ 63"

definition go_add :: "int \<Rightarrow> int \<Rightarrow> int" where
  "go_add a b = wrap64 (a + b)"

definition go_sub :: "int \<Rightarrow> int \<Rightarrow> int" where
  "go_sub a b = wrap64 (a - b)"

definition go_mul :: "int \<Rightarrow> int \<Rightarrow> int" where
  "go_mul a b = wrap64 (a * b)"

text \<open>
  Integer division truncates towards zero and the remainder takes the sign of the
  dividend.  A zero divisor is a run-time panic; the callers test for it before they
  use these two functions.
\<close>

definition go_quo :: "int \<Rightarrow> int \<Rightarrow> int" where
  "go_quo a b = wrap64 (sgn a * sgn b * (\<bar>a\<bar> div \<bar>b\<bar>))"

definition go_rem :: "int \<Rightarrow> int \<Rightarrow> int" where
  "go_rem a b = sgn a * (\<bar>a\<bar> mod \<bar>b\<bar>)"

text \<open>
  The ways in which the run-time system stops a function of this program: the panic of
  an integer division by zero, the panic of \<open>image.NewRGBA\<close> for a rectangle whose
  pixels do not fit a slice, and the failure to get the memory for a slice (the panic
  of \<open>make\<close> for a length beyond the limit of the platform, or the end of the program
  when the memory is exhausted).
\<close>

datatype panic = DivideByZero | HugeImage | AllocationFailed

section \<open>Go floating point numbers\<close>

text \<open>
  A \<open>float64\<close> is an IEEE 754 binary64 number.  The finite ones are modelled by the
  rational number they denote, and \<open>None\<close> stands for a result that is not finite (an
  infinity or a NaN).  The sign of a zero is not modelled.  Every operation computes
  the exact rational result and rounds it with \<open>fl\<close>: to the nearest number with a
  53-bit significand, ties to the even significand, with the gradual underflow below
  \<open>2 powi - 1022\<close> and the overflow to an infinity from \<open>2 ^ 1024\<close> on.
\<close>

type_synonym float64 = "rat option"

text \<open>\<open>ilog2 x\<close> is the integer \<open>e\<close> with \<open>2 powi e \<le> x < 2 powi (e + 1)\<close>, for \<open>0 < x\<close>.\<close>

definition ilog2 :: "rat \<Rightarrow> int" where
  "ilog2 x = (if 1 \<le> x then bitlen \<lfloor>x\<rfloor> - 1 else - bitlen (\<lceil>1 / x\<rceil> - 1))"

definition round_even :: "rat \<Rightarrow> int" where
  "round_even x =
     (let f = \<lfloor>x\<rfloor>; d = x - of_int f in
      if d < 1 / 2 then f else if 1 / 2 < d then f + 1 else if even f then f else f + 1)"

definition fl :: "rat \<Rightarrow> float64" where
  "fl x =
     (if x = 0 then Some 0
      else
        let e = max (ilog2 \<bar>x\<bar>) (- 1022);
            u = 2 powi (e - 52);
            r = of_int (round_even (\<bar>x\<bar> / u)) * u
        in if 2 ^ 1024 \<le> r then None else Some (sgn x * r))"

text \<open>The conversion \<open>float64(n)\<close> of an \<open>int\<close>.\<close>

definition float64_of_int :: "int \<Rightarrow> float64" where
  "float64_of_int n = fl (of_int n)"

definition fmul :: "float64 \<Rightarrow> float64 \<Rightarrow> float64" where
  "fmul a b = (case (a, b) of (Some x, Some y) \<Rightarrow> fl (x * y) | _ \<Rightarrow> None)"

text \<open>A division by zero gives an infinity or a NaN, never a panic.\<close>

definition fdiv :: "float64 \<Rightarrow> float64 \<Rightarrow> float64" where
  "fdiv a b =
     (case (a, b) of
        (Some x, Some y) \<Rightarrow> if y = 0 then None else fl (x / y)
      | _ \<Rightarrow> None)"

text \<open>\<open>math.Ceil\<close> is exact.\<close>

definition Ceil :: "float64 \<Rightarrow> float64" where
  "Ceil a = map_option (\<lambda>x. of_int \<lceil>x\<rceil>) a"

text \<open>
  \<open>math.Sqrt\<close> is correctly rounded: the integer square root of the scaled argument
  gives the 53-bit significand \<open>m\<close> with \<open>m\<^sup>2 \<le> y < (m + 1)\<^sup>2\<close>, and the comparison of
  \<open>y\<close> with \<open>(m + 1/2)\<^sup>2\<close> decides the rounding.  The square root of a negative
  number is a NaN.
\<close>

function isqrt :: "int \<Rightarrow> int" where
  "isqrt n =
     (if n < 2 then n
      else let r = 2 * isqrt (n div 4) in if (r + 1) * (r + 1) \<le> n then r + 1 else r)"
  by pat_completeness auto
termination
  by (relation "measure nat") auto

declare isqrt.simps [simp del]

definition Sqrt :: "float64 \<Rightarrow> float64" where
  "Sqrt a =
     (case a of
        None \<Rightarrow> None
      | Some x \<Rightarrow>
          if x < 0 then None
          else if x = 0 then Some 0
          else
            let e = ilog2 x div 2;
                u = 2 powi (e - 52);
                y = x / (u * u);
                m = isqrt \<lfloor>y\<rfloor>;
                t = of_int (m * m + m) + 1 / 4;
                R = (if y < t then m else if t < y then m + 1 else if even m then m else m + 1)
            in Some (of_int R * u))"

text \<open>
  The conversion \<open>int(f)\<close> truncates towards zero.  For a value that does not fit
  (also an infinity or a NaN) the language leaves the result to the implementation;
  the model returns what the amd64 instruction returns, the least \<open>int\<close>.
\<close>

definition int_of_float64 :: "float64 \<Rightarrow> int" where
  "int_of_float64 a =
     (case a of
        None \<Rightarrow> - (2 ^ 63)
      | Some x \<Rightarrow>
          let t = (if 0 \<le> x then \<lfloor>x\<rfloor> else \<lceil>x\<rceil>) in if in64 t then t else - (2 ^ 63))"

section \<open>Strings (packages strings and path/filepath of the standard library)\<close>

text \<open>
  A Go string is a sequence of bytes; where the library reads it as text it is read
  as UTF-8.  \<open>rune_at\<close> is \<open>utf8.DecodeRune\<close>: the code point that starts a sequence of
  bytes and the number of bytes that follow its first byte, or \<open>None\<close> where the bytes
  do not start with a valid encoding.
\<close>

fun rune_at :: "nat list \<Rightarrow> (nat \<times> nat) option" where
  "rune_at [] = None"
| "rune_at (b0 # bs) =
     (if b0 < 0x80 then Some (b0, 0)
      else if 0xC2 \<le> b0 \<and> b0 \<le> 0xDF then
        (case bs of
           b1 # _ \<Rightarrow>
             if 0x80 \<le> b1 \<and> b1 \<le> 0xBF
             then Some ((b0 - 0xC0) * 64 + (b1 - 0x80), 1) else None
         | _ \<Rightarrow> None)
      else if 0xE0 \<le> b0 \<and> b0 \<le> 0xEF then
        (case bs of
           b1 # b2 # _ \<Rightarrow>
             if (if b0 = 0xE0 then 0xA0 else 0x80) \<le> b1
                \<and> b1 \<le> (if b0 = 0xED then 0x9F else 0xBF)
                \<and> 0x80 \<le> b2 \<and> b2 \<le> 0xBF
             then Some ((b0 - 0xE0) * 4096 + (b1 - 0x80) * 64 + (b2 - 0x80), 2) else None
         | _ \<Rightarrow> None)
      else if 0xF0 \<le> b0 \<and> b0 \<le> 0xF4 then
        (case bs of
           b1 # b2 # b3 # _ \<Rightarrow>
             if (if b0 = 0xF0 then 0x90 else 0x80) \<le> b1
                \<and> b1 \<le> (if b0 = 0xF4 then 0x8F else 0xBF)
                \<and> 0x80 \<le> b2 \<and> b2 \<le> 0xBF \<and> 0x80 \<le> b3 \<and> b3 \<le> 0xBF
             then Some ((b0 - 0xF0) * 262144 + (b1 - 0x80) * 4096 + (b2 - 0x80) * 64 + (b3 - 0x80), 3)
             else None
         | _ \<Rightarrow> None)
      else None)"

text \<open>
  The code points of a Go string as \<open>encoding/json\<close> writes them: a byte that does not
  start a valid encoding becomes the replacement character \<open>U+FFFD\<close>.
\<close>

fun decode_utf8 :: "nat list \<Rightarrow> nat list" where
  "decode_utf8 [] = []"
| "decode_utf8 (b # bs) =
     (case rune_at (b # bs) of
        None \<Rightarrow> 0xFFFD # decode_utf8 bs
      | Some (r, k) \<Rightarrow> r # decode_utf8 (drop k bs))"

fun valid_utf8 :: "nat list \<Rightarrow> bool" where
  "valid_utf8 [] = True"
| "valid_utf8 (b # bs) =
     (case rune_at (b # bs) of
        None \<Rightarrow> False
      | Some (r, k) \<Rightarrow> valid_utf8 (drop k bs))"

text \<open>\<open>encode_rune\<close> is \<open>utf8.EncodeRune\<close>.\<close>

definition encode_rune :: "nat \<Rightarrow> nat list" where
  "encode_rune r =
     (if r < 0x80 then [r]
      else if r < 0x800 then [0xC0 + r div 64, 0x80 + r mod 64]
      else if (0xD800 \<le> r \<and> r \<le> 0xDFFF) \<or> 0x10FFFF < r then [0xEF, 0xBF, 0xBD]
      else if r < 0x10000 then [0xE0 + r div 4096, 0x80 + (r div 64) mod 64, 0x80 + r mod 64]
      else [0xF0 + r div 262144, 0x80 + (r div 4096) mod 64, 0x80 + (r div 64) mod 64,
            0x80 + r mod 64])"

definition encode_utf8 :: "nat list \<Rightarrow> nat list" where
  "encode_utf8 rs = concat (map encode_rune rs)"

text \<open>\<open>strings.Index\<close> returns \<open>-1\<close> when the substring does not occur.\<close>

fun Index :: "string \<Rightarrow> string \<Rightarrow> int" where
  "Index [] sub = (if sub = [] then 0 else - 1)"
| "Index (c # cs) sub =
     (if prefix sub (c # cs) then 0
      else let i = Index cs sub in if i = - 1 then - 1 else i + 1)"

text \<open>The slice expressions \<open>s[i:]\<close> and \<open>s[i:j]\<close>, for indices within the string.\<close>

definition slice_from :: "string \<Rightarrow> int \<Rightarrow> string" where
  "slice_from s i = drop (nat i) s"

definition slice :: "string \<Rightarrow> int \<Rightarrow> int \<Rightarrow> string" where
  "slice s i j = take (nat (j - i)) (drop (nat i) s)"

definition TrimSuffix :: "string \<Rightarrow> string \<Rightarrow> string" where
  "TrimSuffix s suf = (if suffix suf s then take (length s - length suf) s else s)"

text \<open>
  \<open>unicode.IsSpace\<close>, on code points, and \<open>strings.Fields\<close>: the maximal runs of
  characters that are not white space.  The string is read rune by rune; a byte that
  does not start a valid encoding is the character \<open>U+FFFD\<close>, of one byte, which is not
  white space.  \<open>cur\<close> is the field that is being read.
\<close>

definition IsSpace :: "nat \<Rightarrow> bool" where
  "IsSpace r \<longleftrightarrow>
     (0x09 \<le> r \<and> r \<le> 0x0D) \<or> r = 0x20 \<or> r = 0x85 \<or> r = 0xA0 \<or> r = 0x1680
     \<or> (0x2000 \<le> r \<and> r \<le> 0x200A) \<or> r = 0x2028 \<or> r = 0x2029 \<or> r = 0x202F
     \<or> r = 0x205F \<or> r = 0x3000"

fun Fields_from :: "string \<Rightarrow> string \<Rightarrow> string list" where
  "Fields_from [] cur = (if cur = [] then [] else [cur])"
| "Fields_from (c # cs) cur =
     (case (case rune_at (map of_char (c # cs)) of None \<Rightarrow> (0xFFFD, 0) | Some rk \<Rightarrow> rk) of
        (r, k) \<Rightarrow>
          if IsSpace r
          then (if cur = [] then Fields_from (drop k cs) [] else cur # Fields_from (drop k cs) [])
          else Fields_from (drop k cs) (cur @ c # take k cs))"

definition Fields :: "string \<Rightarrow> string list" where
  "Fields s = Fields_from s []"

text \<open>\<open>filepath.Base\<close> and \<open>filepath.Ext\<close> with the separator \<open>/\<close>.\<close>

definition Base :: "string \<Rightarrow> string" where
  "Base path =
     (if path = [] then ''.''
      else
        let p = rev (dropWhile (\<lambda>c. c = CHR ''/'') (rev path)) in
        if p = [] then ''/'' else rev (takeWhile (\<lambda>c. c \<noteq> CHR ''/'') (rev p)))"

definition Ext :: "string \<Rightarrow> string" where
  "Ext path =
     (let last_elem = takeWhile (\<lambda>c. c \<noteq> CHR ''/'') (rev path) in
      if CHR ''.'' \<in> set last_elem
      then CHR ''.'' # rev (takeWhile (\<lambda>c. c \<noteq> CHR ''.'') last_elem)
      else [])"

section \<open>Images (packages image and image/draw of the standard library)\<close>

text \<open>
  A rectangle holds its minimum and maximum corner; \<open>image.Rect\<close> swaps the
  coordinates where needed so that the result is well formed.  An image is its bounds
  and its pixel function.  A colour is the quadruple that the method \<open>RGBA\<close> of a
  colour returns: red, green, blue and alpha, alpha-premultiplied, each below \<open>2 ^ 16\<close>.
  An \<open>image.RGBA\<close> keeps the upper eight bits of each channel (\<open>to_rgba\<close>).  The
  source-over operator of \<open>image/draw\<close> is a parameter \<open>over\<close> of the functions that
  draw.  Whether the run-time system provides a slice of \<open>n\<close> bytes is the parameter
  \<open>alloc\<close> of the functions that make an image.
\<close>

record Rectangle =
  Min_X :: int
  Min_Y :: int
  Max_X :: int
  Max_Y :: int

type_synonym colour = "nat \<times> nat \<times> nat \<times> nat"

record Image =
  Bounds :: Rectangle
  At :: "int \<Rightarrow> int \<Rightarrow> colour"

definition Rect :: "int \<Rightarrow> int \<Rightarrow> int \<Rightarrow> int \<Rightarrow> Rectangle" where
  "Rect x0 y0 x1 y1 =
     \<lparr>Min_X = min x0 x1, Min_Y = min y0 y1, Max_X = max x0 x1, Max_Y = max y0 y1\<rparr>"

definition Dx :: "Rectangle \<Rightarrow> int" where
  "Dx r = go_sub (Max_X r) (Min_X r)"

definition Dy :: "Rectangle \<Rightarrow> int" where
  "Dy r = go_sub (Max_Y r) (Min_Y r)"

definition inside :: "int \<Rightarrow> int \<Rightarrow> Rectangle \<Rightarrow> bool" where
  "inside x y r \<longleftrightarrow> Min_X r \<le> x \<and> x < Max_X r \<and> Min_Y r \<le> y \<and> y < Max_Y r"

definition transparent :: colour where
  "transparent = (0, 0, 0, 0)"

definition alpha :: "colour \<Rightarrow> nat" where
  "alpha c = (case c of (r, g, b, a) \<Rightarrow> a)"

definition to_rgba :: "colour \<Rightarrow> colour" where
  "to_rgba c =
     (case c of (r, g, b, a) \<Rightarrow>
        ((r div 256) * 257, (g div 256) * 257, (b div 256) * 257, (a div 256) * 257))"

text \<open>
  \<open>mul3NonNeg\<close> and \<open>pixelBufferLength\<close> of the package \<open>image\<close>: the product of three
  integers that are not negative, or \<open>-1\<close> when a factor is negative or a product
  overflows (the upper word of the 128-bit product of \<open>bits.Mul64\<close> is not zero, or
  the lower word is not an \<open>int\<close>); a negative length is a panic.
\<close>

definition mul3NonNeg :: "int \<Rightarrow> int \<Rightarrow> int \<Rightarrow> int" where
  "mul3NonNeg x y z =
     (if x < 0 \<or> y < 0 \<or> z < 0 then - 1
      else if 2 ^ 64 \<le> x * y then - 1
      else if 2 ^ 64 \<le> x * y * z then - 1
      else if 2 ^ 63 \<le> x * y * z then - 1
      else x * y * z)"

definition pixelBufferLength :: "int \<Rightarrow> Rectangle \<Rightarrow> panic + int" where
  "pixelBufferLength bytesPerPixel r =
     (let totalLength = mul3NonNeg bytesPerPixel (Dx r) (Dy r) in
      if totalLength < 0 then Inl HugeImage else Inr totalLength)"

text \<open>
  \<open>image.NewRGBA\<close>: a fully transparent image with the given bounds, of four bytes
  for each pixel.
\<close>

definition blank :: "Rectangle \<Rightarrow> Image" where
  "blank r = \<lparr>Bounds = r, At = (\<lambda>x y. transparent)\<rparr>"

definition NewRGBA :: "(int \<Rightarrow> bool) \<Rightarrow> Rectangle \<Rightarrow> panic + Image" where
  "NewRGBA alloc r =
     (case pixelBufferLength 4 r of
        Inl p \<Rightarrow> Inl p
      | Inr n \<Rightarrow> if alloc n then Inr (blank r) else Inl AllocationFailed)"

text \<open>
  \<open>draw.Draw dst r src sp op\<close>: the rectangle \<open>r\<close> is clipped to the bounds of \<open>dst\<close>
  and to the part of \<open>src\<close> that lies under it when \<open>sp\<close> is aligned with the minimum
  corner of \<open>r\<close>; each remaining pixel is combined with \<open>op\<close>.
\<close>

definition Draw ::
  "(colour \<Rightarrow> colour \<Rightarrow> colour) \<Rightarrow> Image \<Rightarrow> Rectangle \<Rightarrow> Image \<Rightarrow> int \<times> int \<Rightarrow> Image" where
  "Draw op dst r src sp =
     dst\<lparr>At := (\<lambda>x y.
        let sx = fst sp + (x - Min_X r); sy = snd sp + (y - Min_Y r) in
        if inside x y r \<and> inside x y (Bounds dst) \<and> inside sx sy (Bounds src)
        then op (At src sx sy) (At dst x y)
        else At dst x y)\<rparr>"

section \<open>Image utilities (package utils)\<close>

text \<open>
  \<open>TrimTransparent\<close>: the scan visits the pixels row by row and keeps whether a pixel
  with a positive alpha was found and the bounding box of those found so far.
\<close>

type_synonym scan_state = "bool \<times> int \<times> int \<times> int \<times> int"

definition scan_pixel :: "Image \<Rightarrow> int \<Rightarrow> int \<Rightarrow> scan_state \<Rightarrow> scan_state" where
  "scan_pixel img y x st =
     (case st of (found, minX, minY, maxX, maxY) \<Rightarrow>
        if 0 < alpha (At img x y) then
          (if \<not> found then (True, x, y, x, y)
           else (True,
                 if x < minX then x else minX,
                 if y < minY then y else minY,
                 if maxX < x then x else maxX,
                 if maxY < y then y else maxY))
        else st)"

definition scan_image :: "Image \<Rightarrow> scan_state" where
  "scan_image img =
     (let bounds = Bounds img in
      fold (\<lambda>y st. fold (scan_pixel img y) [Min_X bounds..Max_X bounds - 1] st)
        [Min_Y bounds..Max_Y bounds - 1]
        (False, Max_X bounds, Max_Y bounds, Min_X bounds, Min_Y bounds))"

definition TrimTransparent :: "(int \<Rightarrow> bool) \<Rightarrow> Image \<Rightarrow> panic + Image" where
  "TrimTransparent alloc img =
     (case scan_image img of (found, minX, minY, maxX, maxY) \<Rightarrow>
        if \<not> found then NewRGBA alloc (Rect 0 0 1 1)
        else
          let trimmedBounds = Rect 0 0 (go_add (go_sub maxX minX) 1) (go_add (go_sub maxY minY) 1)
          in case NewRGBA alloc trimmedBounds of
               Inl p \<Rightarrow> Inl p
             | Inr result \<Rightarrow>
                 Inr (result\<lparr>At := (\<lambda>x y.
                   if inside x y trimmedBounds \<and> minX \<le> x + minX \<and> x + minX \<le> maxX
                        \<and> minY \<le> y + minY \<and> y + minY \<le> maxY
                   then to_rgba (At img (x + minX) (y + minY))
                   else transparent)\<rparr>))"

text \<open>
  \<open>ResizeImage\<close>: the two loops set every pixel \<open>(x, y)\<close> with \<open>0 \<le> x < width\<close> and
  \<open>0 \<le> y < height\<close> from the nearest source pixel.
\<close>

definition ResizeImage :: "(int \<Rightarrow> bool) \<Rightarrow> Image \<Rightarrow> int \<Rightarrow> int \<Rightarrow> panic + Image" where
  "ResizeImage alloc img width height =
     (let bounds = Bounds img;
          srcWidth = Dx bounds;
          srcHeight = Dy bounds
      in if srcWidth = width \<and> srcHeight = height then Inr img
         else
           case NewRGBA alloc (Rect 0 0 width height) of
             Inl p \<Rightarrow> Inl p
           | Inr result \<Rightarrow>
               let scaleX = fdiv (float64_of_int srcWidth) (float64_of_int width);
                   scaleY = fdiv (float64_of_int srcHeight) (float64_of_int height)
               in Inr (result\<lparr>At := (\<lambda>x y.
                    if 0 \<le> x \<and> x < width \<and> 0 \<le> y \<and> y < height then
                      let srcX = int_of_float64 (fmul (float64_of_int x) scaleX);
                          srcY = int_of_float64 (fmul (float64_of_int y) scaleY);
                          srcX' = (if srcWidth \<le> srcX then go_sub srcWidth 1 else srcX);
                          srcY' = (if srcHeight \<le> srcY then go_sub srcHeight 1 else srcY)
                      in to_rgba (At img (go_add (Min_X bounds) srcX') (go_add (Min_Y bounds) srcY'))
                    else transparent)\<rparr>))"

text \<open>
  The source coordinate that the loops of \<open>ResizeImage\<close> compute for the coordinate
  \<open>x\<close> of the result, for a source of \<open>srcSize\<close> pixels and a result of \<open>dstSize\<close> pixels
  in that direction.
\<close>

definition nearest :: "int \<Rightarrow> int \<Rightarrow> int \<Rightarrow> int" where
  "nearest srcSize dstSize x =
     (let scale = fdiv (float64_of_int srcSize) (float64_of_int dstSize);
          src = int_of_float64 (fmul (float64_of_int x) scale)
      in if srcSize \<le> src then go_sub srcSize 1 else src)"

section \<open>Configuration (package config)\<close>

record Config =
  cfg_Scale :: rat
  cfg_Width :: int
  cfg_Height :: int
  cfg_TileWidth :: int
  cfg_TileHeight :: int
  cfg_Cols :: int
  cfg_Rows :: int
  cfg_Padding :: int
  cfg_Trim :: bool
  cfg_Verbose :: bool
  cfg_Converter :: string

definition ConverterOkSVG :: string where "ConverterOkSVG = ''oksvg''"
definition ConverterRod :: string where "ConverterRod = ''rod''"
definition ConverterRSVG :: string where "ConverterRSVG = ''rsvg''"

section \<open>Metadata (package metadata)\<close>

record SpriteInfo =
  spr_Name :: string
  spr_X :: int
  spr_Y :: int
  spr_Width :: int
  spr_Height :: int
  spr_Index :: int

record SpritesheetMetadata =
  meta_Width :: int
  meta_Height :: int
  meta_TileWidth :: int
  meta_TileHeight :: int
  meta_Cols :: int
  meta_Rows :: int
  meta_Padding :: int
  meta_Sprites :: "SpriteInfo list"

section \<open>The spritesheet generator (package spritesheet)\<close>

record FileMapping =
  fm_PNGPath :: string
  fm_OriginalPath :: string
  fm_IsTemporary :: bool

record ImageInfo =
  info_Image :: Image
  info_Filename :: string
  info_OriginalPath :: string
  info_Width :: int
  info_Height :: int

record Layout =
  lay_Cols :: int
  lay_Rows :: int
  lay_TileWidth :: int
  lay_TileHeight :: int
  lay_Padding :: int
  lay_Width :: int
  lay_Height :: int

text \<open>
  The failures of the generator: the errors it returns (each with the message of its
  cause), and the panics that end it.
\<close>

datatype gen_error =
    NoPNGFiles
  | LoadImagesFailed string string
  | SaveSpritesheetFailed string
  | Panic panic

definition processImage :: "(int \<Rightarrow> bool) \<Rightarrow> Config \<Rightarrow> Image \<Rightarrow> panic + Image" where
  "processImage alloc cfg img0 =
     (case (if cfg_Trim cfg then TrimTransparent alloc img0 else Inr img0) of
        Inl p \<Rightarrow> Inl p
      | Inr img \<Rightarrow>
          let bounds = Bounds img
          in if Dx bounds \<noteq> cfg_TileWidth cfg \<or> Dy bounds \<noteq> cfg_TileHeight cfg
             then ResizeImage alloc img (cfg_TileWidth cfg) (cfg_TileHeight cfg)
             else Inr img)"

text \<open>
  \<open>loadImages\<close>: reading and decoding a PNG file is the parameter \<open>loadImage\<close>, which
  returns the image or the message of the error.
\<close>

fun loadImages ::
  "(int \<Rightarrow> bool) \<Rightarrow> (string \<Rightarrow> string + Image) \<Rightarrow> Config \<Rightarrow> FileMapping list \<Rightarrow>
   gen_error + ImageInfo list" where
  "loadImages alloc loadImage cfg [] = Inr []"
| "loadImages alloc loadImage cfg (mapping # rest) =
     (case loadImage (fm_PNGPath mapping) of
        Inl err \<Rightarrow> Inl (LoadImagesFailed (fm_PNGPath mapping) err)
      | Inr img \<Rightarrow>
          (case processImage alloc cfg img of
             Inl p \<Rightarrow> Inl (Panic p)
           | Inr processedImg \<Rightarrow>
               let originalName0 = Base (fm_OriginalPath mapping);
                   ext = Ext originalName0;
                   originalName =
                     (if ext \<noteq> [] then take (length originalName0 - length ext) originalName0
                      else originalName0);
                   info = \<lparr>info_Image = processedImg,
                           info_Filename = originalName,
                           info_OriginalPath = fm_OriginalPath mapping,
                           info_Width = Dx (Bounds processedImg),
                           info_Height = Dy (Bounds processedImg)\<rparr>
               in case loadImages alloc loadImage cfg rest of
                    Inl e \<Rightarrow> Inl e
                  | Inr images \<Rightarrow> Inr (info # images)))"

definition calculateLayout :: "Config \<Rightarrow> int \<Rightarrow> Layout" where
  "calculateLayout cfg imageCount =
     (let (cols, rows) =
            (if 0 < cfg_Cols cfg then
               let cols = cfg_Cols cfg;
                   rows = int_of_float64
                            (Ceil (fdiv (float64_of_int imageCount) (float64_of_int cols)))
               in (cols, rows)
             else if 0 < cfg_Rows cfg then
               let rows = cfg_Rows cfg;
                   cols = int_of_float64
                            (Ceil (fdiv (float64_of_int imageCount) (float64_of_int rows)))
               in (cols, rows)
             else
               let cols = int_of_float64 (Ceil (Sqrt (float64_of_int imageCount)));
                   rows = int_of_float64
                            (Ceil (fdiv (float64_of_int imageCount) (float64_of_int cols)))
               in (cols, rows));
          width = go_add (go_mul cols (cfg_TileWidth cfg))
                         (go_mul (go_sub cols 1) (cfg_Padding cfg));
          height = go_add (go_mul rows (cfg_TileHeight cfg))
                          (go_mul (go_sub rows 1) (cfg_Padding cfg))
      in \<lparr>lay_Cols = cols, lay_Rows = rows,
          lay_TileWidth = cfg_TileWidth cfg, lay_TileHeight = cfg_TileHeight cfg,
          lay_Padding = cfg_Padding cfg, lay_Width = width, lay_Height = height\<rparr>)"

definition getSpriteName :: "string \<Rightarrow> string" where
  "getSpriteName filename = filename"

text \<open>
  The placement loop of \<open>createSpritesheet\<close>: \<open>i\<close> is the loop index, the state is the
  canvas and the metadata built so far.  The function has no error of its own to
  return; it fails by the panic of \<open>image.NewRGBA\<close> for the canvas and by the panic of
  \<open>i % layout.Cols\<close> for a zero column count.
\<close>

text \<open>The rectangle into which the loop draws the tile at index \<open>i\<close>.\<close>

definition destRect :: "Layout \<Rightarrow> int \<Rightarrow> Rectangle" where
  "destRect layout i =
     (let col = go_rem i (lay_Cols layout);
          row = go_quo i (lay_Cols layout);
          x = go_mul col (go_add (lay_TileWidth layout) (lay_Padding layout));
          y = go_mul row (go_add (lay_TileHeight layout) (lay_Padding layout))
      in Rect x y (go_add x (lay_TileWidth layout)) (go_add y (lay_TileHeight layout)))"

fun place_images ::
  "(colour \<Rightarrow> colour \<Rightarrow> colour) \<Rightarrow> Layout \<Rightarrow> ImageInfo list \<Rightarrow> int \<Rightarrow>
   Image \<times> SpritesheetMetadata \<Rightarrow> gen_error + Image \<times> SpritesheetMetadata" where
  "place_images over layout [] i st = Inr st"
| "place_images over layout (imgInfo # rest) i (spritesheet, meta) =
     (if lay_Cols layout = 0 then Inl (Panic DivideByZero)
      else
        let col = go_rem i (lay_Cols layout);
            row = go_quo i (lay_Cols layout);
            x = go_mul col (go_add (lay_TileWidth layout) (lay_Padding layout));
            y = go_mul row (go_add (lay_TileHeight layout) (lay_Padding layout));
            destRect = Rect x y (go_add x (lay_TileWidth layout)) (go_add y (lay_TileHeight layout));
            spritesheet' = Draw over spritesheet destRect (info_Image imgInfo) (0, 0);
            sprite = \<lparr>spr_Name = getSpriteName (info_Filename imgInfo),
                      spr_X = x, spr_Y = y,
                      spr_Width = lay_TileWidth layout,
                      spr_Height = lay_TileHeight layout,
                      spr_Index = i\<rparr>;
            meta' = meta\<lparr>meta_Sprites := meta_Sprites meta @ [sprite]\<rparr>
        in place_images over layout rest (i + 1) (spritesheet', meta'))"

definition createSpritesheet ::
  "(int \<Rightarrow> bool) \<Rightarrow> (colour \<Rightarrow> colour \<Rightarrow> colour) \<Rightarrow> ImageInfo list \<Rightarrow> Layout \<Rightarrow>
   gen_error + Image \<times> SpritesheetMetadata" where
  "createSpritesheet alloc over images layout =
     (case NewRGBA alloc (Rect 0 0 (lay_Width layout) (lay_Height layout)) of
        Inl p \<Rightarrow> Inl (Panic p)
      | Inr spritesheet \<Rightarrow>
          let meta = \<lparr>meta_Width = lay_Width layout,
                      meta_Height = lay_Height layout,
                      meta_TileWidth = lay_TileWidth layout,
                      meta_TileHeight = lay_TileHeight layout,
                      meta_Cols = lay_Cols layout,
                      meta_Rows = lay_Rows layout,
                      meta_Padding = lay_Padding layout,
                      meta_Sprites = []\<rparr>
          in place_images over layout images 0 (spritesheet, meta))"

text \<open>
  \<open>Generate\<close>: writing the PNG file is the parameter \<open>saveSpritesheet\<close>, which returns
  the message of its error, if any.
\<close>

definition Generate ::
  "(int \<Rightarrow> bool) \<Rightarrow> (colour \<Rightarrow> colour \<Rightarrow> colour) \<Rightarrow> (string \<Rightarrow> string + Image) \<Rightarrow>
   (Image \<Rightarrow> string \<Rightarrow> string option) \<Rightarrow> Config \<Rightarrow> FileMapping list \<Rightarrow> string \<Rightarrow>
   gen_error + SpritesheetMetadata" where
  "Generate alloc over loadImage saveSpritesheet cfg fileMappings outputPath =
     (if length fileMappings = 0 then Inl NoPNGFiles
      else
        case loadImages alloc loadImage cfg fileMappings of
          Inl e \<Rightarrow> Inl e
        | Inr images \<Rightarrow>
            let layout = calculateLayout cfg (int (length images)) in
            case createSpritesheet alloc over images layout of
              Inl e \<Rightarrow> Inl e
            | Inr (spritesheet, metadata) \<Rightarrow>
                (case saveSpritesheet spritesheet outputPath of
                   Some err \<Rightarrow> Inl (SaveSpritesheetFailed err)
                 | None \<Rightarrow> Inr metadata))"

section \<open>Conversion options and the converter registry (package svg)\<close>

record ConversionOptions =
  opt_Scale :: rat
  opt_Width :: int
  opt_Height :: int
  opt_Verbose :: bool

definition NewConversionOptions :: "Config \<Rightarrow> ConversionOptions" where
  "NewConversionOptions cfg =
     \<lparr>opt_Scale = cfg_Scale cfg, opt_Width = cfg_Width cfg,
      opt_Height = cfg_Height cfg, opt_Verbose = cfg_Verbose cfg\<rparr>"

text \<open>
  \<open>CalculateDimensions\<close> returns two integers and has no error to return.  The scale
  of the options is a finite number.
\<close>

definition CalculateDimensions :: "ConversionOptions \<Rightarrow> float64 \<Rightarrow> float64 \<Rightarrow> int \<times> int" where
  "CalculateDimensions opts origWidth origHeight =
     (if opt_Scale opts = 0 \<and> opt_Width opts = 0 \<and> opt_Height opts = 0
      then (int_of_float64 origWidth, int_of_float64 origHeight)
      else if 0 < opt_Scale opts
      then (int_of_float64 (fmul origWidth (Some (opt_Scale opts))),
            int_of_float64 (fmul origHeight (Some (opt_Scale opts))))
      else if 0 < opt_Width opts \<and> 0 < opt_Height opts
      then (opt_Width opts, opt_Height opts)
      else if 0 < opt_Width opts
      then let aspectRatio = fdiv origHeight origWidth
           in (opt_Width opts, int_of_float64 (fmul (float64_of_int (opt_Width opts)) aspectRatio))
      else if 0 < opt_Height opts
      then let aspectRatio = fdiv origWidth origHeight
           in (int_of_float64 (fmul (float64_of_int (opt_Height opts)) aspectRatio), opt_Height opts)
      else (int_of_float64 origWidth, int_of_float64 origHeight))"

text \<open>
  A converter is the value behind the interface \<open>SVGConverter\<close>.  What \<open>IsAvailable\<close>
  finds depends on the host: what \<open>launcher.New().Get\<close> of the browser library returns
  for the name of a flag, the programs on the search path and how they run.  A host
  is the record of these facts, and \<open>IsAvailable\<close> returns the message of its error, or
  \<open>None\<close> for \<open>nil\<close>.
\<close>

record Host =
  host_launcher_get :: "string \<Rightarrow> string"
  host_rsvg_on_path :: bool
  host_rsvg_version_error :: "string option"
  host_inkscape_version_error :: "string option"

record SVGConverter =
  conv_Name :: string
  conv_Description :: string
  conv_options :: ConversionOptions
  conv_IsAvailable :: "Host \<Rightarrow> string option"

definition NewOkSVGConverter :: "ConversionOptions \<Rightarrow> SVGConverter" where
  "NewOkSVGConverter options =
     \<lparr>conv_Name = ''OkSVG'',
      conv_Description = ''Pure Go SVG renderer using oksvg+rasterx. Fast and lightweight, good for simple SVGs.'',
      conv_options = options,
      conv_IsAvailable = (\<lambda>host. None)\<rparr>"

definition NewRodConverter :: "ConversionOptions \<Rightarrow> SVGConverter" where
  "NewRodConverter options =
     \<lparr>conv_Name = ''Rod Browser'',
      conv_Description = ''High-quality SVG rendering using Chrome/Chromium browser automation. Excellent compatibility and quality.'',
      conv_options = options,
      conv_IsAvailable = (\<lambda>host.
        if host_launcher_get host [] = [] then Some ''Chrome/Chromium browser not found''
        else None)\<rparr>"

definition NewRSVGConverter :: "ConversionOptions \<Rightarrow> SVGConverter" where
  "NewRSVGConverter options =
     \<lparr>conv_Name = ''RSVG (librsvg)'',
      conv_Description = ''System rsvg-convert command using librsvg. Excellent SVG compatibility and performance.'',
      conv_options = options,
      conv_IsAvailable = (\<lambda>host.
        if \<not> host_rsvg_on_path host
        then Some ''rsvg-convert command not found. Please install librsvg2-bin (Ubuntu/Debian) or librsvg (macOS/Homebrew)''
        else case host_rsvg_version_error host of
               Some err \<Rightarrow> Some (''rsvg-convert command failed: '' @ err)
             | None \<Rightarrow> None)\<rparr>"

definition NewInkscapeConverter :: "ConversionOptions \<Rightarrow> SVGConverter" where
  "NewInkscapeConverter options =
     \<lparr>conv_Name = ''Inkscape'',
      conv_Description = ''Inkscape command-line tool. Professional-grade SVG rendering with excellent compatibility and features.'',
      conv_options = options,
      conv_IsAvailable = (\<lambda>host.
        case host_inkscape_version_error host of
          Some err \<Rightarrow> Some ''inkscape command not found - please install Inkscape (https://inkscape.org/)''
        | None \<Rightarrow> None)\<rparr>"

type_synonym ConverterRegistry = "string \<rightharpoonup> (ConversionOptions \<Rightarrow> SVGConverter)"

datatype registry_error =
    ConverterNotFoundError string
  | ConverterUnavailableError string string

definition Register ::
  "ConverterRegistry \<Rightarrow> string \<Rightarrow> (ConversionOptions \<Rightarrow> SVGConverter) \<Rightarrow> ConverterRegistry" where
  "Register r converterType factory = r(converterType \<mapsto> factory)"

text \<open>
  The identifier \<open>config.ConverterInkscape\<close> is not among the constants of the
  configuration package at hand; it is a parameter of the registry's constructor.
\<close>

definition NewConverterRegistry :: "string \<Rightarrow> ConverterRegistry" where
  "NewConverterRegistry ConverterInkscape =
     Register (Register (Register (Register Map.empty
       ConverterOkSVG NewOkSVGConverter)
       ConverterRod NewRodConverter)
       ConverterRSVG NewRSVGConverter)
       ConverterInkscape NewInkscapeConverter"

definition Create ::
  "Host \<Rightarrow> ConverterRegistry \<Rightarrow> string \<Rightarrow> ConversionOptions \<Rightarrow> registry_error + SVGConverter" where
  "Create host r converterType opts =
     (case r converterType of
        None \<Rightarrow> Inl (ConverterNotFoundError converterType)
      | Some factory \<Rightarrow>
          let converter = factory opts in
          case conv_IsAvailable converter host of
            Some err \<Rightarrow> Inl (ConverterUnavailableError converterType err)
          | None \<Rightarrow> Inr converter)"

section \<open>The size declared by an SVG text (package svg)\<close>

text \<open>
  \<open>parseFloatRod\<close> and \<open>parseFloatRSVG\<close> remove the unit suffixes and scan a number
  with \<open>fmt.Sscanf\<close> and the verb \<open>%f\<close>.  The scanner is the parameter \<open>scan\<close>: it returns
  the number scanned, or \<open>None\<close> for an error.
\<close>

definition parseFloatRod :: "(string \<Rightarrow> float64 option) \<Rightarrow> string \<Rightarrow> float64 option" where
  "parseFloatRod scan s0 =
     (let s1 = TrimSuffix s0 ''px'';
          s2 = TrimSuffix s1 ''pt'';
          s3 = TrimSuffix s2 ''em'';
          s4 = TrimSuffix s3 ''rem''
      in scan s4)"

definition parseFloatRSVG :: "(string \<Rightarrow> float64 option) \<Rightarrow> string \<Rightarrow> float64 option" where
  "parseFloatRSVG scan s0 =
     (let s1 = TrimSuffix s0 ''px'';
          s2 = TrimSuffix s1 ''pt'';
          s3 = TrimSuffix s2 ''em'';
          s4 = TrimSuffix s3 ''rem''
      in scan s4)"

definition dquote :: string where
  "dquote = [CHR 0x22]"

text \<open>
  The two converters carry the same function \<open>parseSVGDimensions\<close>, one with
  \<open>parseFloatRod\<close> and one with \<open>parseFloatRSVG\<close>; \<open>parseFloat\<close> stands for either.
\<close>

definition parseSVGDimensions_with ::
  "(string \<Rightarrow> float64 option) \<Rightarrow> string \<Rightarrow> float64 \<times> float64" where
  "parseSVGDimensions_with parseFloat svgStr =
     (let width0 = Some 100; height0 = Some 100;
          (width1, height1) =
            (let viewBoxStart = Index svgStr (''viewBox='' @ dquote) in
             if viewBoxStart \<noteq> - 1 then
               let viewBoxStart = viewBoxStart + 9;
                   viewBoxEnd = Index (slice_from svgStr viewBoxStart) dquote
               in if viewBoxEnd \<noteq> - 1 then
                    let viewBox = slice svgStr viewBoxStart (viewBoxStart + viewBoxEnd);
                        parts = Fields viewBox
                    in if 4 \<le> length parts then
                         (case parseFloat (parts ! 2) of Some w \<Rightarrow> w | None \<Rightarrow> width0,
                          case parseFloat (parts ! 3) of Some h \<Rightarrow> h | None \<Rightarrow> height0)
                       else (width0, height0)
                  else (width0, height0)
             else (width0, height0));
          width2 =
            (let widthStart = Index svgStr (''width='' @ dquote) in
             if widthStart \<noteq> - 1 then
               let widthStart = widthStart + 7;
                   widthEnd = Index (slice_from svgStr widthStart) dquote
               in if widthEnd \<noteq> - 1 then
                    let widthStr = slice svgStr widthStart (widthStart + widthEnd)
                    in (case parseFloat widthStr of Some w \<Rightarrow> w | None \<Rightarrow> width1)
                  else width1
             else width1);
          height2 =
            (let heightStart = Index svgStr (''height='' @ dquote) in
             if heightStart \<noteq> - 1 then
               let heightStart = heightStart + 8;
                   heightEnd = Index (slice_from svgStr heightStart) dquote
               in if heightEnd \<noteq> - 1 then
                    let heightStr = slice svgStr heightStart (heightStart + heightEnd)
                    in (case parseFloat heightStr of Some h \<Rightarrow> h | None \<Rightarrow> height1)
                  else height1
             else height1)
      in (width2, height2))"

definition Rod_parseSVGDimensions :: "(string \<Rightarrow> float64 option) \<Rightarrow> string \<Rightarrow> float64 \<times> float64" where
  "Rod_parseSVGDimensions scan svgData = parseSVGDimensions_with (parseFloatRod scan) svgData"

definition RSVG_parseSVGDimensions :: "(string \<Rightarrow> float64 option) \<Rightarrow> string \<Rightarrow> float64 \<times> float64" where
  "RSVG_parseSVGDimensions scan svgData = parseSVGDimensions_with (parseFloatRSVG scan) svgData"

text \<open>
  A scanner for the closed examples below.  On a text that is a run of decimal digits
  the verb \<open>%f\<close> reads the decimal number, rounded to a \<open>float64\<close>.  The examples scan
  no other text; for these the function has \<open>None\<close>, which says nothing about
  \<open>fmt.Sscanf\<close>.
\<close>

definition is_digit :: "char \<Rightarrow> bool" where
  "is_digit c \<longleftrightarrow> c \<in> set ''0123456789''"

definition digits_val :: "string \<Rightarrow> nat" where
  "digits_val ds = foldl (\<lambda>n c. 10 * n + (of_char c - 48)) 0 ds"

definition scan_digits :: "string \<Rightarrow> float64 option" where
  "scan_digits s =
     (if s \<noteq> [] \<and> list_all is_digit s then Some (fl (of_nat (digits_val s))) else None)"

section \<open>Export of the metadata (package metadata)\<close>

text \<open>
  \<open>Export\<close> writes what \<open>json.MarshalIndent\<close> makes of the metadata and \<open>LoadMetadata\<close>
  reads a file with \<open>json.Unmarshal\<close>.  The package \<open>encoding/json\<close> of the standard
  library is modelled at the level of the JSON document, from its documentation: a
  JSON number, a JSON string (a sequence of Unicode code points), an array, or an
  object with its members in order.  The syntax of the JSON text, with its
  indentation, is not modelled: a file holds a document.  (A nil slice is written as
  \<open>null\<close> and read back as nil, an empty one as \<open>[]\<close> and read back as empty; the
  empty list stands for both.)  A string is written with the code points of
  \<open>decode_utf8\<close> and read back with \<open>encode_utf8\<close>.
\<close>

datatype json =
    JNumber int
  | JString "nat list"
  | JArray "json list"
  | JObject "(string \<times> json) list"

definition json_of_string :: "string \<Rightarrow> json" where
  "json_of_string s = JString (decode_utf8 (map of_char s))"

text \<open>
  \<open>json.Marshal\<close> of the two structs: one member for each field, under the name of its
  tag, in the order of the fields.
\<close>

definition json_of_sprite :: "SpriteInfo \<Rightarrow> json" where
  "json_of_sprite s =
     JObject [(''name'', json_of_string (spr_Name s)),
              (''x'', JNumber (spr_X s)),
              (''y'', JNumber (spr_Y s)),
              (''width'', JNumber (spr_Width s)),
              (''height'', JNumber (spr_Height s)),
              (''index'', JNumber (spr_Index s))]"

definition json_of_metadata :: "SpritesheetMetadata \<Rightarrow> json" where
  "json_of_metadata m =
     JObject [(''width'', JNumber (meta_Width m)),
              (''height'', JNumber (meta_Height m)),
              (''tile_width'', JNumber (meta_TileWidth m)),
              (''tile_height'', JNumber (meta_TileHeight m)),
              (''cols'', JNumber (meta_Cols m)),
              (''rows'', JNumber (meta_Rows m)),
              (''padding'', JNumber (meta_Padding m)),
              (''sprites'', JArray (map json_of_sprite (meta_Sprites m)))]"

text \<open>
  \<open>json.Unmarshal\<close> into a zero value of the two structs: a member sets the field
  whose tag is its name, the last of several members with one name wins, a member
  with another name is skipped and a field without a member stays zero; a number
  must fit the \<open>int\<close>; a value of another kind is an error.  (The model is for the
  documents that \<open>Export\<close> writes: the match of a name that differs in the case of its
  letters, and the error for an earlier one of several members with one name, are
  not modelled.)
\<close>

definition member_int :: "(string \<times> json) list \<Rightarrow> string \<Rightarrow> int option" where
  "member_int members name =
     (case map_of (rev members) name of
        None \<Rightarrow> Some 0
      | Some (JNumber n) \<Rightarrow> if in64 n then Some n else None
      | Some _ \<Rightarrow> None)"

definition member_string :: "(string \<times> json) list \<Rightarrow> string \<Rightarrow> string option" where
  "member_string members name =
     (case map_of (rev members) name of
        None \<Rightarrow> Some []
      | Some (JString rs) \<Rightarrow> Some (map char_of (encode_utf8 rs))
      | Some _ \<Rightarrow> None)"

definition sprite_of_json :: "json \<Rightarrow> SpriteInfo option" where
  "sprite_of_json v =
     (case v of
        JObject members \<Rightarrow>
          (case (member_string members ''name'', member_int members ''x'',
                 member_int members ''y'', member_int members ''width'',
                 member_int members ''height'', member_int members ''index'') of
             (Some name, Some x, Some y, Some w, Some h, Some i) \<Rightarrow>
               Some \<lparr>spr_Name = name, spr_X = x, spr_Y = y, spr_Width = w,
                     spr_Height = h, spr_Index = i\<rparr>
           | _ \<Rightarrow> None)
      | _ \<Rightarrow> None)"

definition member_sprites :: "(string \<times> json) list \<Rightarrow> string \<Rightarrow> SpriteInfo list option" where
  "member_sprites members name =
     (case map_of (rev members) name of
        None \<Rightarrow> Some []
      | Some (JArray items) \<Rightarrow> those (map sprite_of_json items)
      | Some _ \<Rightarrow> None)"

definition metadata_of_json :: "json \<Rightarrow> SpritesheetMetadata option" where
  "metadata_of_json v =
     (case v of
        JObject members \<Rightarrow>
          (case (member_int members ''width'', member_int members ''height'',
                 member_int members ''tile_width'', member_int members ''tile_height'',
                 member_int members ''cols'', member_int members ''rows'',
                 member_int members ''padding'', member_sprites members ''sprites'') of
             (Some w, Some h, Some tw, Some th, Some c, Some r, Some p, Some sprites) \<Rightarrow>
               Some \<lparr>meta_Width = w, meta_Height = h, meta_TileWidth = tw,
                     meta_TileHeight = th, meta_Cols = c, meta_Rows = r,
                     meta_Padding = p, meta_Sprites = sprites\<rparr>
           | _ \<Rightarrow> None)
      | _ \<Rightarrow> None)"

text \<open>
  The files: what each path holds, and for each path the error, if any, of making
  its directory and of writing it.
\<close>

record Files =
  file_content :: "string \<rightharpoonup> json"
  mkdir_error :: "string \<Rightarrow> string option"
  write_error :: "string \<Rightarrow> string option"

datatype metadata_error =
    CreateDirectoryFailed string
  | WriteFileFailed string
  | ReadFileFailed
  | UnmarshalFailed

definition Export :: "Files \<Rightarrow> SpritesheetMetadata \<Rightarrow> string \<Rightarrow> Files \<times> metadata_error option" where
  "Export files metadata outputPath =
     (case mkdir_error files outputPath of
        Some err \<Rightarrow> (files, Some (CreateDirectoryFailed err))
      | None \<Rightarrow>
          let jsonData = json_of_metadata metadata in
          (case write_error files outputPath of
             Some err \<Rightarrow> (files, Some (WriteFileFailed err))
           | None \<Rightarrow>
               (files\<lparr>file_content := (file_content files)(outputPath \<mapsto> jsonData)\<rparr>, None)))"

definition LoadMetadata :: "Files \<Rightarrow> string \<Rightarrow> metadata_error + SpritesheetMetadata" where
  "LoadMetadata files inputPath =
     (case file_content files inputPath of
        None \<Rightarrow> Inl ReadFileFailed
      | Some data \<Rightarrow>
          (case metadata_of_json data of
             None \<Rightarrow> Inl UnmarshalFailed
           | Some metadata \<Rightarrow> Inr metadata))"

text \<open>
  The fields of a metadata value are Go \<open>int\<close>s, and its sprite names may or may not
  be valid UTF-8.
\<close>

definition sprite_ints :: "SpriteInfo \<Rightarrow> bool" where
  "sprite_ints s \<longleftrightarrow>
     in64 (spr_X s) \<and> in64 (spr_Y s) \<and> in64 (spr_Width s) \<and> in64 (spr_Height s)
     \<and> in64 (spr_Index s)"

definition metadata_ints :: "SpritesheetMetadata \<Rightarrow> bool" where
  "metadata_ints m \<longleftrightarrow>
     in64 (meta_Width m) \<and> in64 (meta_Height m) \<and> in64 (meta_TileWidth m)
     \<and> in64 (meta_TileHeight m) \<and> in64 (meta_Cols m) \<and> in64 (meta_Rows m)
     \<and> in64 (meta_Padding m) \<and> list_all sprite_ints (meta_Sprites m)"

definition names_valid :: "SpritesheetMetadata \<Rightarrow> bool" where
  "names_valid m \<longleftrightarrow> list_all (\<lambda>s. valid_utf8 (map of_char (spr_Name s))) (meta_Sprites m)"


section \<open>Example values\<close>

text \<open>A run-time system that provides every slice of up to \<open>2 ^ 32\<close> bytes.\<close>

definition alloc_4G :: "int \<Rightarrow> bool" where
  "alloc_4G n \<longleftrightarrow> n \<le> 2 ^ 32"

text \<open>An image of one colour, and an image of 10 by 10 pixels whose red and green
  channels count the columns and the rows.\<close>

definition solid :: "Rectangle \<Rightarrow> colour \<Rightarrow> Image" where
  "solid r c = \<lparr>Bounds = r, At = (\<lambda>x y. if inside x y r then c else transparent)\<rparr>"

definition red :: colour where
  "red = (0xFFFF, 0, 0, 0xFFFF)"

definition ramp10 :: Image where
  "ramp10 =
     \<lparr>Bounds = Rect 0 0 10 10,
      At = (\<lambda>x y. if inside x y (Rect 0 0 10 10)
                   then (nat x * 257, nat y * 257, 0, 0xFFFF) else transparent)\<rparr>"

text \<open>Three 64 by 64 tiles for a sheet of two columns with a padding of two pixels.\<close>

definition tile64 :: "string \<Rightarrow> ImageInfo" where
  "tile64 name =
     \<lparr>info_Image = solid (Rect 0 0 64 64) red, info_Filename = name,
      info_OriginalPath = name @ ''.svg'', info_Width = 64, info_Height = 64\<rparr>"

definition layout_2x2 :: Layout where
  "layout_2x2 = \<lparr>lay_Cols = 2, lay_Rows = 2, lay_TileWidth = 64, lay_TileHeight = 64,
                 lay_Padding = 2, lay_Width = 130, lay_Height = 130\<rparr>"

text \<open>A tile of 10 by 10 pixels, smaller than the tiles of \<open>layout_2x2\<close>.\<close>

definition tile10 :: ImageInfo where
  "tile10 =
     \<lparr>info_Image = ramp10, info_Filename = ''small'',
      info_OriginalPath = ''small.png'', info_Width = 10, info_Height = 10\<rparr>"

text \<open>The configuration of seven tiles of 64 by 64 pixels in three columns.\<close>

definition cfg_3cols :: Config where
  "cfg_3cols =
     \<lparr>cfg_Scale = 0, cfg_Width = 0, cfg_Height = 0, cfg_TileWidth = 64, cfg_TileHeight = 64,
      cfg_Cols = 3, cfg_Rows = 0, cfg_Padding = 0, cfg_Trim = False, cfg_Verbose = False,
      cfg_Converter = ''oksvg''\<rparr>"

text \<open>A host where the launcher has no value for any flag, without \<open>rsvg-convert\<close> and
  without Inkscape.\<close>

definition bare_host :: Host where
  "bare_host =
     \<lparr>host_launcher_get = (\<lambda>name. []), host_rsvg_on_path = False,
      host_rsvg_version_error = None, host_inkscape_version_error = Some ''exit status 127''\<rparr>"

definition no_options :: ConversionOptions where
  "no_options = \<lparr>opt_Scale = 1, opt_Width = 0, opt_Height = 0, opt_Verbose = False\<rparr>"

text \<open>An SVG text with an explicit size of 200 by 100 and a view box of 50 by 60.\<close>

definition svg_both :: string where
  "svg_both =
     ''<svg width='' @ dquote @ ''200'' @ dquote @ '' height='' @ dquote @ ''100'' @ dquote @
     '' viewBox='' @ dquote @ ''0 0 50 60'' @ dquote @ ''>''"

text \<open>An empty file system without errors, and a sheet with one sprite whose name is
  the single byte \<open>0xFF\<close>, which is not valid UTF-8.\<close>

definition no_files :: Files where
  "no_files = \<lparr>file_content = Map.empty, mkdir_error = (\<lambda>p. None), write_error = (\<lambda>p. None)\<rparr>"

definition sheet_of :: "string \<Rightarrow> SpritesheetMetadata" where
  "sheet_of name =
     \<lparr>meta_Width = 64, meta_Height = 64, meta_TileWidth = 64, meta_TileHeight = 64,
      meta_Cols = 1, meta_Rows = 1, meta_Padding = 0,
      meta_Sprites = [\<lparr>spr_Name = name, spr_X = 0, spr_Y = 0, spr_Width = 64,
                       spr_Height = 64, spr_Index = 0\<rparr>]\<rparr>"


section \<open>Facts about floating point numbers\<close>

lemma pow2_nat: "0 \<le> k \<Longrightarrow> (2::rat) powi k = 2 ^ nat k"
  by (simp add: power_int_def)

lemma ilog2_lower: assumes "0 < x" shows "2 powi (ilog2 x) \<le> x"
proof (cases "1 \<le> x")
  case True
  then have n: "0 < \<lfloor>x\<rfloor>" by simp
  from bitlen_bounds [OF n] have b: "2 ^ nat (bitlen \<lfloor>x\<rfloor> - 1) \<le> \<lfloor>x\<rfloor>" by simp
  have ge: "0 \<le> bitlen \<lfloor>x\<rfloor> - 1" using n by (simp add: bitlen_alt_def)
  have "(2::rat) powi (bitlen \<lfloor>x\<rfloor> - 1) = of_int (2 ^ nat (bitlen \<lfloor>x\<rfloor> - 1))"
    using ge by (simp add: pow2_nat)
  also have "\<dots> \<le> of_int \<lfloor>x\<rfloor>" using b by (simp only: of_int_le_iff)
  also have "\<dots> \<le> x" by simp
  finally show ?thesis using True by (simp add: ilog2_def)
next
  case False
  then have x1: "x < 1" by simp
  let ?c = "\<lceil>1 / x\<rceil>"
  have y: "1 < 1 / x" using assms x1 by simp
  then have c: "0 < ?c - 1" by (simp add: less_ceiling_iff)
  from bitlen_bounds [OF c] have b: "?c - 1 < 2 ^ nat (bitlen (?c - 1))" by simp
  then have "?c \<le> 2 ^ nat (bitlen (?c - 1))" by simp
  then have "(of_int ?c :: rat) \<le> 2 ^ nat (bitlen (?c - 1))" by simp
  moreover have "1 / x \<le> of_int ?c" by simp
  ultimately have "1 / x \<le> 2 ^ nat (bitlen (?c - 1))" by linarith
  then have "1 / 2 ^ nat (bitlen (?c - 1)) \<le> x"
    using assms by (simp add: field_simps)
  moreover have "(2::rat) powi (- bitlen (?c - 1)) = 1 / 2 ^ nat (bitlen (?c - 1))"
    by (simp add: power_int_minus_divide pow2_nat bitlen_nonneg)
  ultimately show ?thesis using False by (simp add: ilog2_def)
qed

lemma ilog2_upper: assumes "0 < x" shows "x < 2 powi (ilog2 x + 1)"
proof (cases "1 \<le> x")
  case True
  then have n: "0 < \<lfloor>x\<rfloor>" by simp
  from bitlen_bounds [OF n] have b: "\<lfloor>x\<rfloor> < 2 ^ nat (bitlen \<lfloor>x\<rfloor>)" by simp
  then have "\<lfloor>x\<rfloor> + 1 \<le> 2 ^ nat (bitlen \<lfloor>x\<rfloor>)" by simp
  then have "(of_int (\<lfloor>x\<rfloor> + 1) :: rat) \<le> of_int (2 ^ nat (bitlen \<lfloor>x\<rfloor>))" by (simp only: of_int_le_iff)
  moreover have "x < of_int (\<lfloor>x\<rfloor> + 1)" by linarith
  ultimately have "x < 2 ^ nat (bitlen \<lfloor>x\<rfloor>)" by simp
  then show ?thesis using True by (simp add: ilog2_def pow2_nat bitlen_nonneg)
next
  case False
  then have x1: "x < 1" by simp
  let ?c = "\<lceil>1 / x\<rceil>"
  let ?k = "bitlen (?c - 1)"
  have y: "1 < 1 / x" using assms x1 by simp
  then have c: "0 < ?c - 1" by (simp add: less_ceiling_iff)
  from bitlen_bounds [OF c] have b: "2 ^ nat (?k - 1) \<le> ?c - 1" by simp
  have k1: "1 \<le> ?k" using c by (simp add: bitlen_alt_def)
  have "(of_int (2 ^ nat (?k - 1)) :: rat) \<le> of_int (?c - 1)" using b by (simp only: of_int_le_iff)
  moreover have "of_int (?c - 1) < 1 / x" by linarith
  ultimately have "2 ^ nat (?k - 1) < 1 / x" by simp
  then have "x < 1 / 2 ^ nat (?k - 1)"
    using assms by (simp add: field_simps)
  moreover have "(2::rat) powi (- ?k + 1) = 1 / 2 ^ nat (?k - 1)"
  proof -
    have "(2::rat) powi (- ?k + 1) = 2 powi (- (?k - 1))" by simp
    also have "\<dots> = 1 / 2 powi (?k - 1)" by (simp only: power_int_minus_divide)
    also have "\<dots> = 1 / 2 ^ nat (?k - 1)" using k1 by (simp add: pow2_nat)
    finally show ?thesis .
  qed
  ultimately show ?thesis using False by (simp add: ilog2_def)
qed


lemma round_even_cases: "round_even x = \<lfloor>x\<rfloor> \<or> round_even x = \<lfloor>x\<rfloor> + 1"
  by (simp add: round_even_def Let_def)

lemma round_even_of_int [simp]: "round_even (of_int n) = n"
  by (simp add: round_even_def Let_def)

lemma round_even_ge: assumes "of_int n \<le> x" shows "n \<le> round_even x"
proof -
  from assms have "n \<le> \<lfloor>x\<rfloor>" by (simp add: le_floor_iff)
  then show ?thesis using round_even_cases [of x] by arith
qed

lemma round_even_le: assumes "x \<le> of_int n" shows "round_even x \<le> n"
proof (cases "x = of_int n")
  case True
  then show ?thesis by simp
next
  case False
  with assms have "x < of_int n" by simp
  then have "\<lfloor>x\<rfloor> < n" by (simp add: floor_less_iff)
  then show ?thesis using round_even_cases [of x] by auto
qed


lemma pow2_mono: "a \<le> b \<Longrightarrow> (2::rat) powi a \<le> 2 powi b"
  by (rule power_int_increasing) simp_all

lemma pow2_less_exp: assumes "(2::rat) powi a < 2 powi b" shows "a < b"
proof (rule ccontr)
  assume "\<not> a < b"
  then have "b \<le> a" by simp
  then have "(2::rat) powi b \<le> 2 powi a" by (rule pow2_mono)
  with assms show False by simp
qed

lemma pow2_split: "(2::rat) powi (a + b) = 2 powi a * 2 powi b"
  by (simp add: power_int_add)

lemma scale_int:
  assumes "e' \<le> k"
  shows "of_int m * (2::rat) powi k = of_int (m * 2 ^ nat (k - e')) * 2 powi e'"
proof -
  have "(2::rat) powi k = 2 powi ((k - e') + e')"
    by (rule arg_cong [where f = "\<lambda>n. 2 powi n"]) simp
  also have "\<dots> = 2 powi (k - e') * 2 powi e'" by (simp only: pow2_split)
  also have "(2::rat) powi (k - e') = 2 ^ nat (k - e')" using assms by (simp add: pow2_nat)
  finally show ?thesis by simp
qed

lemma below_binade:
  assumes "0 < m" "m < 2 ^ 53" "k + 53 \<le> e"
  shows "of_int m * (2::rat) powi k < 2 powi e"
proof -
  have "(of_int m :: rat) < 2 ^ 53" using assms(2) by simp
  then have "of_int m * (2::rat) powi k < 2 ^ 53 * 2 powi k"
    by (simp add: mult_strict_right_mono)
  also have "\<dots> = 2 powi (53 + k)" by (simp only: pow2_split) simp
  also have "\<dots> \<le> 2 powi e" using assms(3) by (intro pow2_mono) simp
  finally show ?thesis .
qed

lemma fl_lower:
  assumes m: "0 < m" "m < 2 ^ 53" and k: "- 1074 \<le> k"
    and le: "of_int m * 2 powi k \<le> x" and x: "x < 2 ^ 1023"
  shows "\<exists>r. fl x = Some r \<and> of_int m * 2 powi k \<le> r"
proof -
  define f where "f = of_int m * (2::rat) powi k"
  have f0: "0 < f" using m(1) by (simp add: f_def)
  have x0: "0 < x" using f0 le by (simp add: f_def)
  define e where "e = max (ilog2 x) (- 1022)"
  define u where "u = (2::rat) powi (e - 52)"
  define R where "R = round_even (x / u)"
  have u0: "0 < u" by (simp add: u_def)
  have flx: "fl x = (if 2 ^ 1024 \<le> of_int R * u then None else Some (of_int R * u))"
    using x0 by (simp add: fl_def Let_def e_def u_def R_def)
  have "(2::rat) powi (ilog2 x) < 2 powi 1023"
    using ilog2_lower [OF x0] x by simp
  then have il: "ilog2 x < 1023" by (rule pow2_less_exp)
  then have e_le: "e \<le> 1022" by (simp add: e_def)
  have "x < 2 powi (ilog2 x + 1)" by (rule ilog2_upper [OF x0])
  also have "\<dots> \<le> 2 powi (e + 1)" by (rule pow2_mono) (simp add: e_def)
  finally have xe: "x < 2 powi (e + 1)" .
  have e1: "(2::rat) powi (e + 1) = 2 ^ 53 * u"
  proof -
    have "(2::rat) powi (e + 1) = 2 powi (53 + (e - 52))"
      by (rule arg_cong [where f = "\<lambda>n. 2 powi n"]) simp
    also have "\<dots> = 2 powi 53 * 2 powi (e - 52)" by (simp only: pow2_split)
    finally show ?thesis by (simp add: u_def)
  qed
  have "x / u < 2 ^ 53" using xe u0 by (simp add: e1 pos_divide_less_eq)
  then have "x / u \<le> of_int (2 ^ 53)" by simp
  then have R53: "R \<le> 2 ^ 53" unfolding R_def by (rule round_even_le)
  then have "(of_int R :: rat) \<le> 2 ^ 53" by simp
  then have "of_int R * u \<le> 2 ^ 53 * u" using u0 by (simp add: mult_right_mono)
  also have "\<dots> = 2 powi (e + 1)" by (simp add: e1)
  also have "\<dots> \<le> 2 powi 1023" using e_le by (intro pow2_mono) simp
  also have "\<dots> < 2 ^ 1024" by simp
  finally have no: "\<not> 2 ^ 1024 \<le> of_int R * u" by simp
  have "f \<le> of_int R * u"
  proof (cases "e - 52 \<le> k")
    case True
    define G where "G = m * 2 ^ nat (k - (e - 52))"
    have fG: "f = of_int G * u" unfolding f_def G_def u_def by (rule scale_int [OF True])
    have "of_int G \<le> x / u" using le u0 by (simp add: fG [unfolded f_def] pos_le_divide_eq)
    then have "G \<le> R" unfolding R_def by (rule round_even_ge)
    then have "(of_int G :: rat) \<le> of_int R" by simp
    then show ?thesis using u0 by (simp add: fG mult_right_mono)
  next
    case False
    then have ke: "k + 53 \<le> e" by simp
    have fe: "f < 2 powi e" unfolding f_def by (rule below_binade [OF m ke])
    have ee: "e = ilog2 x" using ke k by (simp add: e_def max_def split: if_splits)
    have e2: "(2::rat) powi e = 2 ^ 52 * u"
    proof -
      have "(2::rat) powi e = 2 powi (52 + (e - 52))"
        by (rule arg_cong [where f = "\<lambda>n. 2 powi n"]) simp
      also have "\<dots> = 2 powi 52 * 2 powi (e - 52)" by (simp only: pow2_split)
      finally show ?thesis by (simp add: u_def)
    qed
    have "2 powi e \<le> x" using ilog2_lower [OF x0] by (simp add: ee)
    then have "of_int (2 ^ 52) \<le> x / u" using u0 by (simp add: e2 pos_le_divide_eq)
    then have "2 ^ 52 \<le> R" unfolding R_def by (rule round_even_ge)
    then have "(2 ^ 52 :: rat) \<le> of_int R" by simp
    then have "2 ^ 52 * u \<le> of_int R * u" using u0 by (simp add: mult_right_mono)
    with fe show ?thesis by (simp add: e2)
  qed
  with flx no show ?thesis by (simp add: f_def)
qed

lemma fl_upper:
  assumes m: "0 < m" "m < 2 ^ 53" and k: "- 1074 \<le> k"
    and x0: "0 < x" and le: "x \<le> of_int m * 2 powi k" and big: "of_int m * (2::rat) powi k < 2 ^ 1024"
  shows "\<exists>r. fl x = Some r \<and> r \<le> of_int m * 2 powi k \<and> 0 \<le> r"
proof -
  define f where "f = of_int m * (2::rat) powi k"
  define e where "e = max (ilog2 x) (- 1022)"
  define u where "u = (2::rat) powi (e - 52)"
  define R where "R = round_even (x / u)"
  have u0: "0 < u" by (simp add: u_def)
  have flx: "fl x = (if 2 ^ 1024 \<le> of_int R * u then None else Some (of_int R * u))"
    using x0 by (simp add: fl_def Let_def e_def u_def R_def)
  have "0 \<le> x / u" using x0 u0 by simp
  then have "of_int 0 \<le> x / u" by simp
  then have R0: "0 \<le> R" unfolding R_def by (rule round_even_ge)
  have "e - 52 \<le> k"
  proof (rule ccontr)
    assume "\<not> e - 52 \<le> k"
    then have ke: "k + 53 \<le> e" by simp
    have fe: "f < 2 powi e" unfolding f_def by (rule below_binade [OF m ke])
    have ee: "e = ilog2 x" using ke k by (simp add: e_def max_def split: if_splits)
    have "2 powi e \<le> x" using ilog2_lower [OF x0] by (simp add: ee)
    with fe le show False by (simp add: f_def)
  qed
  then have fG: "f = of_int (m * 2 ^ nat (k - (e - 52))) * u"
    unfolding f_def u_def by (rule scale_int)
  define G where "G = m * 2 ^ nat (k - (e - 52))"
  have "x / u \<le> of_int G" using le u0 by (simp add: fG [unfolded f_def] G_def pos_divide_le_eq)
  then have "R \<le> G" unfolding R_def by (rule round_even_le)
  then have "(of_int R :: rat) \<le> of_int G" by simp
  then have rf: "of_int R * u \<le> f" using u0 by (simp add: fG G_def mult_right_mono)
  with big have no: "\<not> 2 ^ 1024 \<le> of_int R * u" by (simp add: f_def)
  have "0 \<le> of_int R * u" using R0 u0 by simp
  with flx no rf show ?thesis by (simp add: f_def)
qed


lemma fl_exact:
  assumes "0 < m" "m < 2 ^ 53" "- 1074 \<le> k" "of_int m * (2::rat) powi k < 2 ^ 1023"
  shows "fl (of_int m * 2 powi k) = Some (of_int m * 2 powi k)"
proof -
  let ?f = "of_int m * (2::rat) powi k"
  have f0: "0 < ?f" using assms(1) by simp
  from fl_lower [OF assms(1,2,3) order_refl assms(4)]
  obtain r where r: "fl ?f = Some r" and lo: "?f \<le> r" by blast
  have "?f < 2 ^ 1024" using assms(4) by (rule less_trans) simp
  from fl_upper [OF assms(1,2,3) f0 order_refl this]
  obtain r' where r': "fl ?f = Some r'" and hi: "r' \<le> ?f" by blast
  from r r' lo hi show ?thesis by simp
qed

lemma float64_of_int_exact:
  assumes "0 \<le> n" "n < 2 ^ 53"
  shows "float64_of_int n = Some (of_int n)"
proof (cases "n = 0")
  case True
  then show ?thesis by (simp add: float64_of_int_def fl_def)
next
  case False
  with assms have n: "0 < n" by simp
  have "(of_int n :: rat) < 2 ^ 53" using assms(2) by simp
  also have "(2 ^ 53 :: rat) < 2 ^ 1023" by simp
  finally have "of_int n * (2::rat) powi 0 < 2 ^ 1023" by simp
  from fl_exact [OF n assms(2) _ this] show ?thesis by (simp add: float64_of_int_def)
qed

lemma pow2_between:
  assumes "0 < (c::int)"
  shows "\<exists>t::nat. c \<le> 2 ^ t \<and> 2 ^ t < 2 * c"
proof (cases "c = 1")
  case True
  then show ?thesis by (intro exI [of _ 0]) simp
next
  case False
  with assms have c: "0 < c - 1" by simp
  from bitlen_bounds [OF c]
  have b: "2 ^ nat (bitlen (c - 1) - 1) \<le> c - 1" "c - 1 < 2 ^ nat (bitlen (c - 1))" by simp_all
  have k1: "1 \<le> bitlen (c - 1)" using c by (simp add: bitlen_alt_def)
  have "(2::int) ^ nat (bitlen (c - 1)) = 2 * 2 ^ nat (bitlen (c - 1) - 1)"
    using k1 by (simp add: nat_diff_distrib flip: power_Suc) 
  with b show ?thesis by (intro exI [of _ "nat (bitlen (c - 1))"]) simp
qed

lemma fdiv_ceil:
  assumes n: "0 < n" "n \<le> 2 ^ 52" and c: "0 < c" "c < 2 ^ 53"
  shows "int_of_float64 (Ceil (fdiv (float64_of_int n) (float64_of_int c))) = \<lceil>of_int n / (of_int c :: rat)\<rceil>"
proof -
  define x where "x = of_int n / (of_int c :: rat)"
  define q where "q = \<lceil>x\<rceil> - 1"
  have x0: "0 < x" using n c by (simp add: x_def)
  have xn: "x \<le> of_int n"
  proof -
    have "(1::rat) \<le> of_int c" using c by simp
    then have "of_int n / (of_int c :: rat) \<le> of_int n / 1"
      using n by (intro divide_left_mono) simp_all
    then show ?thesis by (simp add: x_def)
  qed
  have q0: "0 \<le> q" using x0 by (simp add: q_def)
  have qx: "of_int q < x" unfolding q_def by linarith
  have xq: "x \<le> of_int (q + 1)" unfolding q_def by simp
  have qn: "q + 1 \<le> n" using xn by (simp add: q_def ceiling_le_iff)
  have fn: "float64_of_int n = Some (of_int n)" using n by (intro float64_of_int_exact) simp_all
  have fc: "float64_of_int c = Some (of_int c)" using c by (intro float64_of_int_exact) simp_all
  have d: "fdiv (float64_of_int n) (float64_of_int c) = fl x"
    using c by (simp add: fdiv_def fn fc x_def)
  \<comment> \<open>upper bound\<close>
  have q53: "q + 1 < 2 ^ 53" using qn n by simp
  have "(of_int (q + 1) :: rat) < 2 ^ 53" using q53 by (simp only: of_int_less_numeral_power_cancel_iff)
  also have "(2 ^ 53 :: rat) < 2 ^ 1024" by simp
  finally have big: "of_int (q + 1) * (2::rat) powi 0 < 2 ^ 1024" by simp
  have "x \<le> of_int (q + 1) * 2 powi 0" using xq by simp
  from fl_upper [OF _ q53 _ x0 this big] q0
  obtain r where r: "fl x = Some r" and hi: "r \<le> of_int (q + 1)" by auto
  \<comment> \<open>lower bound\<close>
  from pow2_between [OF c(1)] obtain t :: nat where t: "c \<le> 2 ^ t" "2 ^ t < 2 * c" by blast
  have t54: "t < 54"
  proof -
    have lt: "(2::int) ^ t < 2 ^ 54" using t(2) c(2) by simp
    show ?thesis
    proof (rule ccontr)
      assume "\<not> t < 54"
      then have "(2::int) ^ 54 \<le> 2 ^ t" by (intro power_increasing) simp_all
      with lt show False by simp
    qed
  qed
  define m where "m = q * 2 ^ t + 1"
  have m0: "0 < m" using q0 by (simp add: m_def add_pos_nonneg)
  have qc: "q * c < n"
  proof -
    have "of_int q * of_int c < x * (of_int c :: rat)"
      using qx c by (simp add: mult_strict_right_mono)
    also have "\<dots> = of_int n" using c by (simp add: x_def)
    finally have "(of_int (q * c) :: rat) < of_int n" by simp
    then show ?thesis by (simp only: of_int_less_iff)
  qed
  have m53: "m < 2 ^ 53"
  proof -
    have "q * 2 ^ t \<le> q * (2 * c)" using t(2) q0 by (intro mult_left_mono) simp_all
    also have "\<dots> = 2 * (q * c)" by simp
    also have "\<dots> \<le> 2 * (n - 1)" using qc by simp
    finally have "m \<le> 2 * n - 1" by (simp add: m_def)
    with n show ?thesis by simp
  qed
  have p: "(2::rat) powi (- int t) = 1 / 2 ^ t" by (simp add: power_int_minus_divide)
  have f_le: "of_int m * 2 powi (- int t) \<le> x"
  proof -
    have "q * c + 1 \<le> n" using qc by simp
    then have "(of_int (q * c + 1) :: rat) \<le> of_int n" by (simp only: of_int_le_iff)
    then have "(of_int q * of_int c + 1) / of_int c \<le> x"
      using c by (simp add: x_def divide_right_mono)
    then have a: "of_int q + 1 / of_int c \<le> x" using c by (simp add: field_simps)
    have "(of_int c :: rat) \<le> 2 ^ t" using t(1) by simp
    then have "1 / (2::rat) ^ t \<le> 1 / of_int c" using c by (simp add: frac_le)
    with a have "of_int q + 1 / 2 ^ t \<le> x" by simp
    moreover have "of_int m * 2 powi (- int t) = of_int q + 1 / (2::rat) ^ t"
      by (simp add: m_def p field_simps)
    ultimately show ?thesis by simp
  qed
  have "x < 2 ^ 1023"
  proof -
    have "x \<le> of_int n" by (rule xn)
    also have "(of_int n :: rat) \<le> 2 ^ 52" using n by simp
    also have "(2 ^ 52 :: rat) < 2 ^ 1023" by simp
    finally show ?thesis .
  qed
  from fl_lower [OF m0 m53 _ f_le this] t54
  obtain r' where r': "fl x = Some r'" and lo': "of_int m * 2 powi (- int t) \<le> r'" by auto
  have "of_int q < of_int m * (2::rat) powi (- int t)"
    by (simp add: m_def p field_simps)
  with lo' r r' have lo: "of_int q < r" by simp
  have "\<lceil>r\<rceil> = q + 1" using lo hi by (simp add: ceiling_eq_iff)
  moreover have "\<lceil>x\<rceil> = q + 1" by (simp add: q_def)
  moreover have "in64 (q + 1)" using q0 q53 by (simp add: in64_def)
  ultimately show ?thesis
    using q0 by (simp add: d r Ceil_def int_of_float64_def x_def [symmetric])
qed


lemma isqrt_nonneg: "0 \<le> n \<Longrightarrow> 0 \<le> isqrt n"
proof (induction n rule: isqrt.induct)
  case (1 n)
  show ?case
  proof (cases "n < 2")
    case True
    then have "isqrt n = n" by (subst isqrt.simps) simp
    with "1.prems" show ?thesis by simp
  next
    case False
    have "0 \<le> n div 4" using "1.prems" by simp
    from "1.IH" [OF False this] have s0: "0 \<le> isqrt (n div 4)" .
    have "isqrt n = (if (2 * isqrt (n div 4) + 1) * (2 * isqrt (n div 4) + 1) \<le> n
                     then 2 * isqrt (n div 4) + 1 else 2 * isqrt (n div 4))"
      using False by (subst isqrt.simps) (simp add: Let_def)
    with s0 show ?thesis by simp
  qed
qed

lemma isqrt_correct:
  "0 \<le> n \<Longrightarrow> isqrt n * isqrt n \<le> n \<and> n < (isqrt n + 1) * (isqrt n + 1)"
proof (induction n rule: isqrt.induct)
  case (1 n)
  show ?case
  proof (cases "n < 2")
    case True
    with "1.prems" have n01: "n = 0 \<or> n = 1" by arith
    have "isqrt n = n" using True by (subst isqrt.simps) simp
    with n01 show ?thesis by auto
  next
    case False
    define s where "s = isqrt (n div 4)"
    have "0 \<le> n div 4" using "1.prems" by simp
    from "1.IH" [OF False this] have ih: "s * s \<le> n div 4" "n div 4 < (s + 1) * (s + 1)"
      by (simp_all add: s_def)
    have lo: "(2 * s) * (2 * s) \<le> n"
    proof -
      have "(2 * s) * (2 * s) = 4 * (s * s)" by simp
      also have "\<dots> \<le> 4 * (n div 4)" using ih(1) by simp
      also have "\<dots> \<le> n" by arith
      finally show ?thesis .
    qed
    have hi: "n < (2 * s + 2) * (2 * s + 2)"
    proof -
      have "n div 4 + 1 \<le> (s + 1) * (s + 1)" using ih(2) by simp
      then have "4 * (n div 4 + 1) \<le> 4 * ((s + 1) * (s + 1))" by simp
      moreover have "n < 4 * (n div 4 + 1)" by arith
      moreover have "4 * ((s + 1) * (s + 1)) = (2 * s + 2) * (2 * s + 2)" by (simp add: algebra_simps)
      ultimately show ?thesis by linarith
    qed
    have eq: "isqrt n = (if (2 * s + 1) * (2 * s + 1) \<le> n then 2 * s + 1 else 2 * s)"
      using False by (subst isqrt.simps) (simp add: Let_def s_def)
    show ?thesis
    proof (cases "(2 * s + 1) * (2 * s + 1) \<le> n")
      case True
      then have e1: "isqrt n = 2 * s + 1" by (simp add: eq)
      have h': "2 * s + 1 + 1 = 2 * s + 2" by simp
      from True hi show ?thesis unfolding e1 h' by blast
    next
      case False
      then have e0: "isqrt n = 2 * s" by (simp add: eq)
      from False lo show ?thesis unfolding e0 by simp
    qed
  qed
qed

lemma pick_cases:
  "(if a then m else if b then m + 1 else if c then m else m + 1) = (m::int)
   \<or> (if a then m else if b then m + 1 else if c then m else m + 1) = m + 1"
  by simp

lemma pick_up:
  "(if a then m else if b then m + 1 else if c then m else m + 1) = (m::int) + 1 \<Longrightarrow> \<not> a"
  by (cases a) simp_all

lemma Sqrt_pos:
  assumes x0: "0 < x"
  obtains e m R where
    "Sqrt (Some x) = Some (of_int R * 2 powi (e - 52))"
    "2 ^ 52 \<le> m" "m < 2 ^ 53" "R = m \<or> R = m + 1"
    "of_int (m * m) \<le> x / (2 powi (e - 52) * 2 powi (e - 52))"
    "x / (2 powi (e - 52) * 2 powi (e - 52)) < of_int ((m + 1) * (m + 1))"
    "R = m + 1 \<Longrightarrow> of_int (m * m) < x / (2 powi (e - 52) * 2 powi (e - 52))"
proof -
  define e where "e = ilog2 x div 2"
  let ?u = "(2::rat) powi (e - 52)"
  let ?y = "x / (?u * ?u)"
  define N where "N = \<lfloor>?y\<rfloor>"
  define m where "m = isqrt N"
  define t where "t = (of_int (m * m + m) :: rat) + 1 / 4"
  define R where "R = (if ?y < t then m else if t < ?y then m + 1 else if even m then m else m + 1)"
  have u0: "0 < ?u" by simp
  have uu: "?u * ?u = 2 powi (2 * e - 104)"
  proof -
    have "?u * ?u = 2 powi ((e - 52) + (e - 52))" by (simp only: pow2_split)
    also have "(e - 52) + (e - 52) = 2 * e - 104" by simp
    finally show ?thesis .
  qed
  have nx: "\<not> x < 0" "x \<noteq> 0" using x0 by simp_all
  have S: "Sqrt (Some x) = Some (of_int R * ?u)"
    unfolding Sqrt_def R_def t_def m_def N_def e_def
    by (simp only: option.case nx if_False Let_def)
  have e_lo: "2 * e \<le> ilog2 x" and e_hi: "ilog2 x + 1 \<le> 2 * e + 2"
    unfolding e_def using div_mult_mod_eq [of "ilog2 x" 2] pos_mod_bound [of 2 "ilog2 x"] pos_mod_sign [of 2 "ilog2 x"] by linarith+
  have "(2::rat) powi (2 * e) \<le> 2 powi (ilog2 x)" using e_lo by (rule pow2_mono)
  also have "\<dots> \<le> x" by (rule ilog2_lower [OF x0])
  finally have x_lo: "2 powi (2 * e) \<le> x" .
  have "x < 2 powi (ilog2 x + 1)" by (rule ilog2_upper [OF x0])
  also have "\<dots> \<le> 2 powi (2 * e + 2)" using e_hi by (rule pow2_mono)
  finally have x_hi: "x < 2 powi (2 * e + 2)" .
  have p1: "(2::rat) powi (2 * e) = 2 ^ 104 * (?u * ?u)"
  proof -
    have "(2::rat) powi (2 * e) = 2 powi (104 + (2 * e - 104))"
      by (rule arg_cong [where f = "\<lambda>n. 2 powi n"]) simp
    also have "\<dots> = 2 powi 104 * 2 powi (2 * e - 104)" by (simp only: pow2_split)
    also have "\<dots> = 2 ^ 104 * (?u * ?u)" by (simp only: uu power_int_numeral)
    finally show ?thesis .
  qed
  have p2: "(2::rat) powi (2 * e + 2) = 2 ^ 106 * (?u * ?u)"
  proof -
    have "(2::rat) powi (2 * e + 2) = 2 powi (106 + (2 * e - 104))"
      by (rule arg_cong [where f = "\<lambda>n. 2 powi n"]) simp
    also have "\<dots> = 2 powi 106 * 2 powi (2 * e - 104)" by (simp only: pow2_split)
    also have "\<dots> = 2 ^ 106 * (?u * ?u)" by (simp only: uu power_int_numeral)
    finally show ?thesis .
  qed
  have uu0: "0 < ?u * ?u" by simp
  have y_lo: "2 ^ 104 \<le> ?y" using x_lo unfolding p1 by (simp only: pos_le_divide_eq [OF uu0])
  have y_hi: "?y < 2 ^ 106" using x_hi unfolding p2 by (simp only: pos_divide_less_eq [OF uu0])
  have N_lo: "2 ^ 104 \<le> N"
  proof -
    have "of_int (2 ^ 104) \<le> ?y" using y_lo by (simp only: of_int_power of_int_numeral)
    then show ?thesis unfolding N_def by (simp only: le_floor_iff)
  qed
  have N_hi: "N < 2 ^ 106"
  proof -
    have "?y < of_int (2 ^ 106)" using y_hi by (simp only: of_int_power of_int_numeral)
    then show ?thesis unfolding N_def by (simp only: floor_less_iff)
  qed
  have N0: "0 \<le> N" using N_lo by simp
  from isqrt_correct [OF N0]
  have mN: "m * m \<le> N" and Nm: "N < (m + 1) * (m + 1)"
    by (simp_all add: m_def)
  have m0: "0 \<le> m" unfolding m_def by (rule isqrt_nonneg [OF N0])
  have m_lo: "2 ^ 52 \<le> m"
  proof (rule ccontr)
    assume "\<not> 2 ^ 52 \<le> m"
    then have "m + 1 \<le> 2 ^ 52" by simp
    then have "(m + 1) * (m + 1) \<le> 2 ^ 52 * 2 ^ 52" using m0 by (intro mult_mono) simp_all
    also have "(2 ^ 52 * 2 ^ 52 :: int) = 2 ^ 104" by simp
    finally show False using Nm N_lo by linarith
  qed
  have m_hi: "m < 2 ^ 53"
  proof (rule ccontr)
    assume "\<not> m < 2 ^ 53"
    then have "2 ^ 53 \<le> m" by simp
    then have "(2 ^ 53) * (2 ^ 53) \<le> m * m" by (intro mult_mono) simp_all
    moreover have "(2 ^ 53 * 2 ^ 53 :: int) = 2 ^ 106" by simp
    ultimately show False using mN N_hi by linarith
  qed
  have my: "of_int (m * m) \<le> ?y"
  proof -
    have "(of_int (m * m) :: rat) \<le> of_int N" using mN by (simp only: of_int_le_iff)
    also have "\<dots> \<le> ?y" unfolding N_def by (rule of_int_floor_le)
    finally show ?thesis .
  qed
  have ym: "?y < of_int ((m + 1) * (m + 1))"
  proof -
    have "N + 1 \<le> (m + 1) * (m + 1)" using Nm by simp
    then have "(of_int (N + 1) :: rat) \<le> of_int ((m + 1) * (m + 1))" by (simp only: of_int_le_iff)
    moreover have "?y < of_int (N + 1)" unfolding N_def using floor_correct [of ?y] by blast
    ultimately show ?thesis by (rule less_le_trans [rotated])
  qed
  have Rm: "R = m \<or> R = m + 1" unfolding R_def by (rule pick_cases)
  have R1: "of_int (m * m) < ?y" if "R = m + 1"
  proof -
    from that have "\<not> ?y < t" unfolding R_def by (rule pick_up)
    then have "t \<le> ?y" by (simp only: not_less)
    moreover have "(of_int (m * m) :: rat) < t"
    proof -
      have "(of_int (m * m) :: rat) \<le> of_int (m * m + m)" using m0 by simp
      then show ?thesis unfolding t_def by linarith
    qed
    ultimately show ?thesis by (rule less_le_trans [rotated])
  qed
  show thesis
    by (rule that [of R e m, OF S m_lo m_hi Rm my ym R1])
qed


lemma sq_less_imp_less: "(0::'a::linordered_idom) \<le> b \<Longrightarrow> a * a < b * b \<Longrightarrow> a < b"
proof (rule ccontr)
  assume b: "0 \<le> b" and lt: "a * a < b * b" and "\<not> a < b"
  then have "b \<le> a" by simp
  with b have "b * b \<le> a * a" by (intro mult_mono) simp_all
  with lt show False by simp
qed

lemma sq_le_imp_le: "(0::'a::linordered_idom) \<le> b \<Longrightarrow> a * a \<le> b * b \<Longrightarrow> a \<le> b"
proof (rule ccontr)
  assume b: "0 \<le> b" and le: "a * a \<le> b * b" and "\<not> a \<le> b"
  then have ba: "b < a" by simp
  with b have "b * b < a * a" by (intro mult_strict_mono') simp_all
  with le show False by simp
qed

lemma pow2_52: "(2::rat) powi e = 2 ^ 52 * 2 powi (e - 52)"
proof -
  have "(2::rat) powi e = 2 powi (52 + (e - 52))"
    by (rule arg_cong [where f = "\<lambda>n. 2 powi n"]) simp
  also have "\<dots> = 2 powi 52 * 2 powi (e - 52)" by (simp only: pow2_split)
  finally show ?thesis by simp
qed

lemma sqrt_lower:
  assumes mm: "0 < mm" "mm < 2 ^ 53"
    and le: "(of_int mm * 2 powi k) * (of_int mm * 2 powi k) \<le> x"
  shows "\<exists>r. Sqrt (Some x) = Some r \<and> of_int mm * 2 powi k \<le> r"
proof -
  define f where "f = of_int mm * (2::rat) powi k"
  have f0: "0 < f" using mm(1) by (simp add: f_def)
  then have "0 < f * f" by simp
  with le have x0: "0 < x" by (simp add: f_def)
  from Sqrt_pos [OF x0] obtain e m R where
    S: "Sqrt (Some x) = Some (of_int R * 2 powi (e - 52))"
    and m_lo: "2 ^ 52 \<le> m" and m_hi: "m < 2 ^ 53" and Rm: "R = m \<or> R = m + 1"
    and my: "of_int (m * m) \<le> x / (2 powi (e - 52) * 2 powi (e - 52))"
    and ym: "x / (2 powi (e - 52) * 2 powi (e - 52)) < of_int ((m + 1) * (m + 1))"
    by blast
  let ?u = "(2::rat) powi (e - 52)"
  have u0: "0 < ?u" by simp
  have uu0: "0 < ?u * ?u" by simp
  have mR: "m \<le> R" using Rm by auto
  have "f \<le> of_int R * ?u"
  proof (cases "e - 52 \<le> k")
    case True
    define G where "G = mm * 2 ^ nat (k - (e - 52))"
    have fG: "f = of_int G * ?u" unfolding f_def G_def by (rule scale_int [OF True])
    have G0: "0 \<le> G" using mm(1) by (simp add: G_def)
    have "of_int (G * G) * (?u * ?u) = f * f" by (simp add: fG)
    also have "\<dots> \<le> x" using le by (simp add: f_def)
    finally have "of_int (G * G) \<le> x / (?u * ?u)" by (simp only: pos_le_divide_eq [OF uu0])
    from this ym have "(of_int (G * G) :: rat) < of_int ((m + 1) * (m + 1))" by (rule le_less_trans)
    then have "G * G < (m + 1) * (m + 1)" by (simp only: of_int_less_iff)
    moreover have "0 \<le> m + 1" using m_lo by simp
    ultimately have "G < m + 1" by (rule sq_less_imp_less [rotated])
    with mR have "G \<le> R" by simp
    then have "(of_int G :: rat) \<le> of_int R" by simp
    then show ?thesis using u0 by (simp add: fG mult_right_mono)
  next
    case False
    then have ke: "k + 53 \<le> e" by simp
    have "f < 2 powi e" unfolding f_def by (rule below_binade [OF mm ke])
    also have "(2::rat) powi e = 2 ^ 52 * ?u" by (rule pow2_52)
    also have "\<dots> \<le> of_int R * ?u"
    proof -
      have "2 ^ 52 \<le> R" using m_lo mR by simp
      then have "(2 ^ 52 :: rat) \<le> of_int R" by simp
      then show ?thesis using u0 by (simp add: mult_right_mono)
    qed
    finally show ?thesis by simp
  qed
  with S show ?thesis by (simp add: f_def)
qed

lemma sqrt_upper:
  assumes mm: "0 < mm" "mm < 2 ^ 53" and x0: "0 < x"
    and le: "x \<le> (of_int mm * 2 powi k) * (of_int mm * 2 powi k)"
  shows "\<exists>r. Sqrt (Some x) = Some r \<and> r \<le> of_int mm * 2 powi k"
proof -
  define f where "f = of_int mm * (2::rat) powi k"
  have f0: "0 < f" using mm(1) by (simp add: f_def)
  from Sqrt_pos [OF x0] obtain e m R where
    S: "Sqrt (Some x) = Some (of_int R * 2 powi (e - 52))"
    and m_lo: "2 ^ 52 \<le> m" and m_hi: "m < 2 ^ 53" and Rm: "R = m \<or> R = m + 1"
    and my: "of_int (m * m) \<le> x / (2 powi (e - 52) * 2 powi (e - 52))"
    and R1: "R = m + 1 \<Longrightarrow> of_int (m * m) < x / (2 powi (e - 52) * 2 powi (e - 52))"
    by blast
  let ?u = "(2::rat) powi (e - 52)"
  have u0: "0 < ?u" by simp
  have uu0: "0 < ?u * ?u" by simp
  have m0: "0 \<le> m" using m_lo by simp
  have mx: "(of_int m * ?u) * (of_int m * ?u) \<le> x"
  proof -
    have "(of_int m * ?u) * (of_int m * ?u) = of_int (m * m) * (?u * ?u)" by simp
    also have "\<dots> \<le> x" using my by (simp only: pos_le_divide_eq [OF uu0])
    finally show ?thesis .
  qed
  have ek: "e - 52 \<le> k"
  proof (rule ccontr)
    assume "\<not> e - 52 \<le> k"
    then have ke: "k + 53 \<le> e" by simp
    have "f < 2 powi e" unfolding f_def by (rule below_binade [OF mm ke])
    also have "(2::rat) powi e = 2 ^ 52 * ?u" by (rule pow2_52)
    also have "\<dots> \<le> of_int m * ?u"
    proof -
      have "(2 ^ 52 :: rat) \<le> of_int m" using m_lo by simp
      then show ?thesis using u0 by (simp add: mult_right_mono)
    qed
    finally have "f < of_int m * ?u" .
    then have "f * f < (of_int m * ?u) * (of_int m * ?u)"
      using f0 by (intro mult_strict_mono') simp_all
    with mx le show False by (simp add: f_def)
  qed
  define G where "G = mm * 2 ^ nat (k - (e - 52))"
  have fG: "f = of_int G * ?u" unfolding f_def G_def by (rule scale_int [OF ek])
  have G0: "0 \<le> G" using mm(1) by (simp add: G_def)
  have "x \<le> f * f" using le by (simp add: f_def)
  also have "\<dots> = of_int (G * G) * (?u * ?u)" by (simp add: fG)
  finally have yG: "x / (?u * ?u) \<le> of_int (G * G)" by (simp only: pos_divide_le_eq [OF uu0])
  have "R \<le> G"
  proof (cases "R = m")
    case True
    from my yG have "(of_int (m * m) :: rat) \<le> of_int (G * G)" by (rule order_trans)
    then have "m * m \<le> G * G" by (simp only: of_int_le_iff)
    with G0 have "m \<le> G" by (rule sq_le_imp_le)
    with True show ?thesis by simp
  next
    case False
    with Rm have R: "R = m + 1" by simp
    from R1 [OF R] yG have "(of_int (m * m) :: rat) < of_int (G * G)" by (rule less_le_trans)
    then have "m * m < G * G" by (simp only: of_int_less_iff)
    with G0 have "m < G" by (rule sq_less_imp_less)
    with R show ?thesis by simp
  qed
  then have "(of_int R :: rat) \<le> of_int G" by simp
  then have "of_int R * ?u \<le> f" using u0 by (simp add: fG mult_right_mono)
  with S show ?thesis by (simp add: f_def)
qed


lemma Sqrt_ceil:
  assumes n: "0 < n" "n \<le> 2 ^ 50"
  shows "\<exists>c. int_of_float64 (Ceil (Sqrt (float64_of_int n))) = c
           \<and> 0 < c \<and> c \<le> 2 ^ 25 \<and> (c - 1) * (c - 1) < n \<and> n \<le> c * c"
proof -
  define s where "s = isqrt (n - 1)"
  define c where "c = s + 1"
  have n1: "0 \<le> n - 1" using n by simp
  have s0: "0 \<le> s" unfolding s_def by (rule isqrt_nonneg [OF n1])
  from isqrt_correct [OF n1]
  have lo: "s * s \<le> n - 1" and hi: "n - 1 < (s + 1) * (s + 1)"
    by (simp_all add: s_def)
  have s25: "s < 2 ^ 25"
  proof (rule ccontr)
    assume "\<not> s < 2 ^ 25"
    then have "2 ^ 25 \<le> s" by simp
    then have "(2 ^ 25) * (2 ^ 25) \<le> s * s" by (intro mult_mono) simp_all
    moreover have "(2 ^ 25 * 2 ^ 25 :: int) = 2 ^ 50" by simp
    ultimately show False using lo n by linarith
  qed
  have c0: "0 < c" using s0 by (simp add: c_def)
  have c53: "c < 2 ^ 53" using s25 by (simp add: c_def)
  have nc: "n \<le> c * c" using hi by (simp add: c_def)
  have fn: "float64_of_int n = Some (of_int n)" using n by (intro float64_of_int_exact) simp_all
  have x0: "0 < (of_int n :: rat)" using n by simp
  \<comment> \<open>upper bound\<close>
  have "(of_int n :: rat) \<le> of_int (c * c)" using nc by (simp only: of_int_le_iff)
  then have "(of_int n :: rat) \<le> (of_int c * 2 powi 0) * (of_int c * 2 powi 0)" by simp
  from sqrt_upper [OF c0 c53 x0 this]
  obtain r where r: "Sqrt (Some (of_int n)) = Some r" and r_hi: "r \<le> of_int c" by auto
  \<comment> \<open>lower bound\<close>
  from pow2_between [OF c0] obtain t0 :: nat where t0: "c \<le> 2 ^ t0" "2 ^ t0 < 2 * c" by blast
  define t where "t = Suc t0"
  have t: "2 * c \<le> 2 ^ t" "2 ^ t < 4 * c" using t0 by (simp_all add: t_def)
  define mm where "mm = s * 2 ^ t + 1"
  have mm0: "0 < mm" using s0 by (simp add: mm_def add_pos_nonneg)
  have mm53: "mm < 2 ^ 53"
  proof -
    have "s * 2 ^ t \<le> s * (4 * c)" using t(2) s0 by (intro mult_left_mono) simp_all
    also have "\<dots> = 4 * (s * (s + 1))" by (simp add: c_def)
    also have "s * (s + 1) \<le> 2 ^ 25 * 2 ^ 25" using s25 s0 by (intro mult_mono) simp_all
    finally have "s * 2 ^ t \<le> 4 * (2 ^ 25 * 2 ^ 25)" by simp
    then show ?thesis by (simp add: mm_def)
  qed
  define d where "d = 1 / (2::rat) ^ t"
  have d0: "0 < d" by (simp add: d_def)
  have p: "(2::rat) powi (- int t) = d" by (simp add: power_int_minus_divide d_def)
  define S where "S = (of_int s :: rat)"
  have S0: "0 \<le> S" using s0 by (simp add: S_def)
  have f_eq: "of_int mm * 2 powi (- int t) = S + d"
    by (simp add: mm_def p S_def) (simp add: d_def field_simps)
  have d2c: "d * (2 * (S + 1)) \<le> 1"
  proof -
    have "(of_int (2 * c) :: rat) \<le> of_int (2 ^ t)" using t(1) by (simp only: of_int_le_iff)
    then have "2 * (S + 1) \<le> (2::rat) ^ t" by (simp add: c_def S_def)
    then show ?thesis by (simp add: d_def field_simps)
  qed
  have d1: "d \<le> 1"
  proof -
    have "d * 1 \<le> d * (2 * (S + 1))" using d0 S0 by (intro mult_left_mono) simp_all
    with d2c show ?thesis by simp
  qed
  have "d * (2 * S + d) \<le> d * (2 * (S + 1))"
    using d0 d1 by (intro mult_left_mono) simp_all
  with d2c have dd: "d * (2 * S + d) \<le> 1" by simp
  have "(S + d) * (S + d) = S * S + d * (2 * S + d)" by (simp add: algebra_simps)
  also have "\<dots> \<le> S * S + 1" using dd by simp
  also have "\<dots> = of_int (s * s + 1)" by (simp add: S_def)
  also have "\<dots> \<le> of_int n" using lo by (simp only: of_int_le_iff)
  finally have "(of_int mm * 2 powi (- int t)) * (of_int mm * 2 powi (- int t)) \<le> (of_int n :: rat)"
    by (simp only: f_eq)
  from sqrt_lower [OF mm0 mm53 this]
  obtain r' where r': "Sqrt (Some (of_int n)) = Some r'" and r_lo': "S + d \<le> r'"
    by (auto simp only: f_eq)
  have r_lo: "of_int s < r" using r r' r_lo' d0 by (simp add: S_def)
  have "\<lceil>r\<rceil> = c" using r_lo r_hi by (simp add: ceiling_eq_iff c_def)
  moreover have "in64 c" using c0 c53 by (simp add: in64_def)
  ultimately have "int_of_float64 (Ceil (Sqrt (float64_of_int n))) = c"
    using c0 by (simp add: fn r Ceil_def int_of_float64_def)
  moreover have "(c - 1) * (c - 1) < n" using lo by (simp add: c_def)
  moreover have "c \<le> 2 ^ 25" using s25 by (simp add: c_def)
  ultimately show ?thesis using c0 nc by blast
qed

lemma ceiling_sqrt_eq:
  assumes "0 < c" "(c - 1) * (c - 1) < n" "n \<le> c * c"
  shows "\<lceil>sqrt (real_of_int n)\<rceil> = c"
proof -
  have "real_of_int n \<le> (real_of_int c)\<^sup>2"
    using assms(3) by (metis of_int_le_iff of_int_mult power2_eq_square)
  then have hi: "sqrt (real_of_int n) \<le> real_of_int c"
    using assms(1) by (intro real_le_lsqrt) simp_all
  have "(real_of_int (c - 1))\<^sup>2 < real_of_int n"
    using assms(2) by (metis of_int_less_iff of_int_mult power2_eq_square)
  then have lo: "real_of_int (c - 1) < sqrt (real_of_int n)"
    by (rule real_less_rsqrt)
  from lo hi show ?thesis by (simp add: ceiling_eq_iff)
qed

section \<open>Facts about Go integers\<close>

lemma wrap64_id: "in64 x \<Longrightarrow> wrap64 x = x"
  by (simp add: in64_def wrap64_def)

lemma in64_wrap64: "in64 (wrap64 x)"
  by (simp add: in64_def wrap64_def)

lemma go_rem_nonneg: "0 \<le> a \<Longrightarrow> 0 < b \<Longrightarrow> go_rem a b = a mod b"
  by (cases "a = 0") (simp_all add: go_rem_def)

lemma go_quo_nonneg: "0 \<le> a \<Longrightarrow> 0 < b \<Longrightarrow> a < 2 ^ 63 \<Longrightarrow> go_quo a b = a div b"
proof -
  assume a: "0 \<le> a" and b: "0 < b" and lt: "a < 2 ^ 63"
  have "0 \<le> a div b" using a b by (simp add: pos_imp_zdiv_nonneg_iff)
  moreover have "a div b \<le> a div 1" using a b by (intro zdiv_mono2) simp_all
  ultimately have "in64 (a div b)" using lt by (simp add: in64_def)
  then have "wrap64 (a div b) = a div b" by (rule wrap64_id)
  moreover have "sgn a * sgn b * (\<bar>a\<bar> div \<bar>b\<bar>) = a div b"
    using a b by (cases "a = 0") simp_all
  ultimately show ?thesis by (simp add: go_quo_def)
qed

section \<open>Allocation of an image\<close>

lemma NewRGBA_cases:
  obtains (ok) "NewRGBA alloc r = Inr (blank r)"
  | (panic) p where "NewRGBA alloc r = Inl p"
proof -
  have "NewRGBA alloc r = Inr (blank r) \<or> (\<exists>p. NewRGBA alloc r = Inl p)"
    by (auto simp: NewRGBA_def split: sum.splits)
  with that show thesis by blast
qed

lemma NewRGBA_Inr: "NewRGBA alloc r = Inr img \<Longrightarrow> img = blank r"
  by (auto simp: NewRGBA_def split: sum.splits if_splits)

lemma NewRGBA_ok:
  assumes "0 \<le> Dx r" "0 \<le> Dy r" "4 * Dx r * Dy r < 2 ^ 63" "Dx r < 2 ^ 62"
    and "alloc (4 * Dx r * Dy r)"
  shows "NewRGBA alloc r = Inr (blank r)"
proof -
  from assms(1,2,3) have "4 * Dx r * Dy r < 2 ^ 64" by simp
  moreover from assms(4) have "4 * Dx r < 2 ^ 64" by simp
  ultimately have "mul3NonNeg 4 (Dx r) (Dy r) = 4 * Dx r * Dy r"
    using assms(1,2,3) by (simp add: mul3NonNeg_def)
  moreover have "0 \<le> 4 * Dx r * Dy r" using assms(1,2) by simp
  ultimately show ?thesis using assms(5) by (simp add: NewRGBA_def pixelBufferLength_def Let_def)
qed

section \<open>Placement\<close>

lemma Draw_Bounds: "Bounds (Draw op dst r src sp) = Bounds dst"
  by (simp add: Draw_def)

lemma Draw_outside: "\<not> inside x y r \<Longrightarrow> At (Draw op dst r src sp) x y = At dst x y"
  by (simp add: Draw_def Let_def)

lemma Draw_cong:
  assumes "Bounds dst = Bounds dst'" "At dst x y = At dst' x y"
  shows "At (Draw op dst r src sp) x y = At (Draw op dst' r src sp) x y"
  using assms by (simp add: Draw_def Let_def)

lemma place_images_Cons:
  assumes "lay_Cols layout \<noteq> 0"
  shows "\<exists>meta1. place_images over layout (a # rest) i (sheet0, meta0) =
           place_images over layout rest (i + 1)
             (Draw over sheet0 (destRect layout i) (info_Image a) (0, 0), meta1)"
  using assms by (simp add: Let_def destRect_def) blast

lemma place_images_zero:
  "lay_Cols layout = 0 \<Longrightarrow> place_images over layout (a # rest) i st = Inl (Panic DivideByZero)"
  by (cases st) simp

text \<open>
  The canvas after the loop: its bounds are those of the canvas before, a pixel
  outside every rectangle of the loop is as before, and a pixel inside exactly one
  of them is what drawing that one tile makes of it.
\<close>

lemma place_images_sheet_all:
  assumes "place_images over layout images i (sheet0, meta0) = Inr (sheet, meta)"
  shows "Bounds sheet = Bounds sheet0
       \<and> (\<forall>x y. (\<forall>k < length images. \<not> inside x y (destRect layout (i + int k)))
              \<longrightarrow> At sheet x y = At sheet0 x y)
       \<and> (\<forall>j x y. j < length images
              \<longrightarrow> (\<forall>k < length images. k \<noteq> j \<longrightarrow> \<not> inside x y (destRect layout (i + int k)))
              \<longrightarrow> At sheet x y =
                    At (Draw over sheet0 (destRect layout (i + int j)) (info_Image (images ! j)) (0, 0)) x y)"
  using assms
proof (induction images arbitrary: i sheet0 meta0)
  case Nil
  then show ?case by simp
next
  case (Cons a rest)
  let ?sheet1 = "Draw over sheet0 (destRect layout i) (info_Image a) (0, 0)"
  note r = Cons.prems
  have nz: "lay_Cols layout \<noteq> 0"
  proof
    assume "lay_Cols layout = 0"
    from place_images_zero [OF this, of over a rest i "(sheet0, meta0)"] r show False by simp
  qed
  from place_images_Cons [OF nz, of over a rest i sheet0 meta0] r
  obtain meta1 where
    r1: "place_images over layout rest (i + 1) (?sheet1, meta1) = Inr (sheet, meta)"
    by auto
  note ih = Cons.IH [OF r1]
  from ih have b: "Bounds sheet = Bounds ?sheet1" by blast
  have out: "At sheet x y = At ?sheet1 x y"
    if "\<forall>k < length rest. \<not> inside x y (destRect layout (i + 1 + int k))" for x y
    using ih that by blast
  have shift: "i + int (Suc k) = i + 1 + int k" for k by simp
  have B: "Bounds sheet = Bounds sheet0" using b by (simp add: Draw_Bounds)
  have O: "At sheet x y = At sheet0 x y"
    if h: "\<forall>k < length (a # rest). \<not> inside x y (destRect layout (i + int k))" for x y
  proof -
    from h have h0: "\<not> inside x y (destRect layout i)" by force
    have "\<forall>k < length rest. \<not> inside x y (destRect layout (i + 1 + int k))"
    proof (intro allI impI)
      fix k assume "k < length rest"
      then have "Suc k < length (a # rest)" by simp
      with h have "\<not> inside x y (destRect layout (i + int (Suc k)))" by blast
      then show "\<not> inside x y (destRect layout (i + 1 + int k))" unfolding shift .
    qed
    from out [OF this] Draw_outside [OF h0] show ?thesis by simp
  qed
  have M: "At sheet x y =
        At (Draw over sheet0 (destRect layout (i + int j)) (info_Image ((a # rest) ! j)) (0, 0)) x y"
    if j: "j < length (a # rest)"
      and h: "\<forall>k < length (a # rest). k \<noteq> j \<longrightarrow> \<not> inside x y (destRect layout (i + int k))"
    for j x y
  proof (cases j)
    case 0
    have "\<forall>k < length rest. \<not> inside x y (destRect layout (i + 1 + int k))"
    proof (intro allI impI)
      fix k assume "k < length rest"
      then have "Suc k < length (a # rest)" "Suc k \<noteq> j" using 0 by simp_all
      with h have "\<not> inside x y (destRect layout (i + int (Suc k)))" by blast
      then show "\<not> inside x y (destRect layout (i + 1 + int k))" unfolding shift .
    qed
    from out [OF this] 0 show ?thesis by simp
  next
    case (Suc j')
    with j have j': "j' < length rest" by simp
    have d: "\<forall>k < length rest. k \<noteq> j' \<longrightarrow> \<not> inside x y (destRect layout (i + 1 + int k))"
    proof (intro allI impI)
      fix k assume "k < length rest" "k \<noteq> j'"
      then have "Suc k < length (a # rest)" "Suc k \<noteq> j" using Suc by simp_all
      with h have "\<not> inside x y (destRect layout (i + int (Suc k)))" by blast
      then show "\<not> inside x y (destRect layout (i + 1 + int k))" unfolding shift .
    qed
    from ih j' d
    have e: "At sheet x y =
        At (Draw over ?sheet1 (destRect layout (i + 1 + int j')) (info_Image (rest ! j')) (0, 0)) x y"
      by blast
    have "0 < length (a # rest)" "0 \<noteq> j" using Suc by simp_all
    with h have "\<not> inside x y (destRect layout (i + int 0))" by blast
    then have h0: "\<not> inside x y (destRect layout i)" by simp
    have "At (Draw over ?sheet1 (destRect layout (i + 1 + int j')) (info_Image (rest ! j')) (0, 0)) x y
        = At (Draw over sheet0 (destRect layout (i + 1 + int j')) (info_Image (rest ! j')) (0, 0)) x y"
      by (rule Draw_cong) (simp_all add: Draw_Bounds Draw_outside [OF h0])
    with e show ?thesis by (simp add: Suc add.assoc)
  qed
  from B O M show ?case by blast
qed

lemma place_images_sheet:
  assumes "place_images over layout images i (sheet0, meta0) = Inr (sheet, meta)"
  shows "Bounds sheet = Bounds sheet0"
    and "(\<forall>k < length images. \<not> inside x y (destRect layout (i + int k)))
          \<Longrightarrow> At sheet x y = At sheet0 x y"
    and "j < length images
          \<Longrightarrow> (\<forall>k < length images. k \<noteq> j \<longrightarrow> \<not> inside x y (destRect layout (i + int k)))
          \<Longrightarrow> At sheet x y =
                At (Draw over sheet0 (destRect layout (i + int j)) (info_Image (images ! j)) (0, 0)) x y"
  using place_images_sheet_all [OF assms] by blast+

text \<open>
  The rectangles of the loop in exact arithmetic, for a layout whose tile size and
  padding are not negative and whose coordinates are representable as a Go \<open>int\<close>.
\<close>

lemma destRect_exact:
  assumes c: "0 < lay_Cols layout" and i: "0 \<le> i" "i < 2 ^ 63"
    and t: "0 \<le> lay_TileWidth layout" "0 \<le> lay_TileHeight layout" "0 \<le> lay_Padding layout"
    and rx: "lay_Cols layout * (lay_TileWidth layout + lay_Padding layout) < 2 ^ 63"
    and ry: "(i div lay_Cols layout + 1) * (lay_TileHeight layout + lay_Padding layout) < 2 ^ 63"
  shows "destRect layout i =
           \<lparr>Min_X = (i mod lay_Cols layout) * (lay_TileWidth layout + lay_Padding layout),
            Min_Y = (i div lay_Cols layout) * (lay_TileHeight layout + lay_Padding layout),
            Max_X = (i mod lay_Cols layout) * (lay_TileWidth layout + lay_Padding layout)
                      + lay_TileWidth layout,
            Max_Y = (i div lay_Cols layout) * (lay_TileHeight layout + lay_Padding layout)
                      + lay_TileHeight layout\<rparr>"
proof -
  define cc where "cc = lay_Cols layout"
  define s where "s = lay_TileWidth layout + lay_Padding layout"
  define u where "u = lay_TileHeight layout + lay_Padding layout"
  define m where "m = i mod cc"
  define d where "d = i div cc"
  have c0: "0 < cc" using c by (simp add: cc_def)
  have s0: "0 \<le> s" and u0: "0 \<le> u" using t by (simp_all add: s_def u_def)
  have ts: "lay_TileWidth layout \<le> s" and tu: "lay_TileHeight layout \<le> u"
    using t by (simp_all add: s_def u_def)
  have m0: "0 \<le> m" and "m < cc" using c0 by (simp_all add: m_def)
  then have mc: "m + 1 \<le> cc" by linarith
  have d0: "0 \<le> d" using c0 i(1) by (simp add: d_def pos_imp_zdiv_nonneg_iff)
  have cs: "cc * s < 2 ^ 63" using rx by (simp add: cc_def s_def)
  have du: "(d + 1) * u < 2 ^ 63" using ry by (simp add: d_def cc_def u_def)
  have "1 * s \<le> cc * s" using c0 s0 by (intro mult_right_mono) simp_all
  with cs have s63: "s < 2 ^ 63" by simp
  have "1 * u \<le> (d + 1) * u" using d0 u0 by (intro mult_right_mono) simp_all
  with du have u63: "u < 2 ^ 63" by simp
  have "(m + 1) * s \<le> cc * s" using mc s0 by (rule mult_right_mono)
  then have ms: "m * s + s \<le> cc * s" by (simp add: algebra_simps)
  have ms0: "0 \<le> m * s" using m0 s0 by simp
  have du': "d * u + u < 2 ^ 63" using du by (simp add: algebra_simps)
  have du0: "0 \<le> d * u" using d0 u0 by simp
  have rem: "go_rem i cc = m" using i(1) c0 by (simp add: go_rem_nonneg m_def)
  have quo: "go_quo i cc = d" using i c0 by (simp add: go_quo_nonneg d_def)
  have a1: "go_add (lay_TileWidth layout) (lay_Padding layout) = s"
    using s0 s63 by (simp add: go_add_def s_def wrap64_id in64_def)
  have a2: "go_add (lay_TileHeight layout) (lay_Padding layout) = u"
    using u0 u63 by (simp add: go_add_def u_def wrap64_id in64_def)
  have x: "go_mul m s = m * s"
    using ms0 ms s0 cs by (simp add: go_mul_def wrap64_id in64_def)
  have y: "go_mul d u = d * u"
    using du0 du' u0 by (simp add: go_mul_def wrap64_id in64_def)
  have x1: "go_add (m * s) (lay_TileWidth layout) = m * s + lay_TileWidth layout"
    using ms0 ms ts cs t(1) by (simp add: go_add_def wrap64_id in64_def)
  have y1: "go_add (d * u) (lay_TileHeight layout) = d * u + lay_TileHeight layout"
    using du0 du' tu t(2) by (simp add: go_add_def wrap64_id in64_def)
  have "destRect layout i =
      Rect (m * s) (d * u) (m * s + lay_TileWidth layout) (d * u + lay_TileHeight layout)"
    by (simp only: destRect_def Let_def cc_def [symmetric] rem quo a1 a2 x y x1 y1)
  also have "\<dots> = \<lparr>Min_X = m * s, Min_Y = d * u, Max_X = m * s + lay_TileWidth layout,
                     Max_Y = d * u + lay_TileHeight layout\<rparr>"
    using t(1,2) by (simp add: Rect_def)
  finally show ?thesis by (simp only: m_def d_def cc_def s_def u_def)
qed

lemma cells_disjoint:
  assumes c: "0 < (c::int)" and s: "t \<le> s" and u: "h \<le> u" and s0: "0 \<le> s" and u0: "0 \<le> u"
    and a: "0 \<le> a" and b: "0 \<le> b" and ab: "a \<noteq> b"
    and ia: "(a mod c) * s \<le> x" "x < (a mod c) * s + t" "(a div c) * u \<le> y" "y < (a div c) * u + h"
  shows "\<not> ((b mod c) * s \<le> x \<and> x < (b mod c) * s + t \<and> (b div c) * u \<le> y \<and> y < (b div c) * u + h)"
proof
  assume ib: "(b mod c) * s \<le> x \<and> x < (b mod c) * s + t \<and> (b div c) * u \<le> y \<and> y < (b div c) * u + h"
  have step: "p * w + w \<le> q * w" if "p < q" "0 \<le> w" for p q w :: int
  proof -
    from that have "(p + 1) * w \<le> q * w" by (intro mult_right_mono) simp_all
    then show ?thesis by (simp add: algebra_simps)
  qed
  have m: "a mod c = b mod c"
  proof (rule ccontr)
    assume "a mod c \<noteq> b mod c"
    then consider "a mod c < b mod c" | "b mod c < a mod c" by linarith
    then show False
    proof cases
      case 1
      from step [OF 1 s0] ia(2) ib s show False by linarith
    next
      case 2
      from step [OF 2 s0] ia(1) ib s show False by linarith
    qed
  qed
  have d: "a div c = b div c"
  proof (rule ccontr)
    assume "a div c \<noteq> b div c"
    then consider "a div c < b div c" | "b div c < a div c" by linarith
    then show False
    proof cases
      case 1
      from step [OF 1 u0] ia(4) ib u show False by linarith
    next
      case 2
      from step [OF 2 u0] ia(3) ib u show False by linarith
    qed
  qed
  have "a = c * (a div c) + a mod c" by simp
  also have "\<dots> = c * (b div c) + b mod c" by (simp only: m d)
  also have "\<dots> = b" by simp
  finally show False using ab by simp
qed

text \<open>The sprite that the loop of \<open>createSpritesheet\<close> appends for the tile at index \<open>i\<close>.\<close>

lemma place_images_sprites:
  assumes "lay_Cols layout \<noteq> 0"
  shows "\<exists>sheet meta'. place_images over layout images i (sheet0, meta) = Inr (sheet, meta')
           \<and> meta_Sprites meta' =
               meta_Sprites meta @
               map (\<lambda>(k, info).
                     \<lparr>spr_Name = info_Filename info,
                      spr_X = go_mul (go_rem (i + int k) (lay_Cols layout))
                                (go_add (lay_TileWidth layout) (lay_Padding layout)),
                      spr_Y = go_mul (go_quo (i + int k) (lay_Cols layout))
                                (go_add (lay_TileHeight layout) (lay_Padding layout)),
                      spr_Width = lay_TileWidth layout,
                      spr_Height = lay_TileHeight layout,
                      spr_Index = i + int k\<rparr>)
                   (enumerate 0 images)"
  using assms
proof (induction images arbitrary: i sheet0 meta)
  case Nil
  then show ?case by simp
next
  case (Cons a images)
  let ?sp = "\<lambda>i info.
       \<lparr>spr_Name = info_Filename info,
        spr_X = go_mul (go_rem i (lay_Cols layout))
                  (go_add (lay_TileWidth layout) (lay_Padding layout)),
        spr_Y = go_mul (go_quo i (lay_Cols layout))
                  (go_add (lay_TileHeight layout) (lay_Padding layout)),
        spr_Width = lay_TileWidth layout,
        spr_Height = lay_TileHeight layout,
        spr_Index = i\<rparr>"
  let ?sheet1 = "Draw over sheet0
      (Rect (spr_X (?sp i a)) (spr_Y (?sp i a))
            (go_add (spr_X (?sp i a)) (lay_TileWidth layout))
            (go_add (spr_Y (?sp i a)) (lay_TileHeight layout)))
      (info_Image a) (0, 0)"
  let ?meta1 = "meta\<lparr>meta_Sprites := meta_Sprites meta @ [?sp i a]\<rparr>"
  have step: "place_images over layout (a # images) i (sheet0, meta) =
              place_images over layout images (i + 1) (?sheet1, ?meta1)"
    using Cons.prems by (simp add: Let_def getSpriteName_def)
  from Cons.IH [OF Cons.prems, of "i + 1" ?sheet1 ?meta1]
  obtain sheet meta' where
    r: "place_images over layout images (i + 1) (?sheet1, ?meta1) = Inr (sheet, meta')"
    and s: "meta_Sprites meta' = meta_Sprites ?meta1 @
              map (\<lambda>(k, info). ?sp (i + 1 + int k) info) (enumerate 0 images)"
    by blast
  have shift: "map (\<lambda>(k, info). ?sp (i + int k) info) (enumerate 0 (a # images))
      = ?sp i a # map (\<lambda>(k, info). ?sp (i + 1 + int k) info) (enumerate 0 images)"
    by (simp add: enumerate_Suc_eq map_prod_def split_def comp_def add.assoc)
  show ?case
    using r s by (simp only: step shift) simp
qed

lemma createSpritesheet_place:
  assumes "NewRGBA alloc (Rect 0 0 (lay_Width layout) (lay_Height layout)) = Inr canvas"
  shows "createSpritesheet alloc over images layout =
           place_images over layout images 0
             (blank (Rect 0 0 (lay_Width layout) (lay_Height layout)),
              \<lparr>meta_Width = lay_Width layout, meta_Height = lay_Height layout,
               meta_TileWidth = lay_TileWidth layout, meta_TileHeight = lay_TileHeight layout,
               meta_Cols = lay_Cols layout, meta_Rows = lay_Rows layout,
               meta_Padding = lay_Padding layout, meta_Sprites = []\<rparr>)"
  using assms NewRGBA_Inr [OF assms] by (simp add: createSpritesheet_def Let_def)

lemma createSpritesheet_panic:
  assumes "NewRGBA alloc (Rect 0 0 (lay_Width layout) (lay_Height layout)) = Inl p"
  shows "createSpritesheet alloc over images layout = Inl (Panic p)"
  using assms by (simp add: createSpritesheet_def)

lemma createSpritesheet_nth:
  assumes "lay_Cols layout \<noteq> 0"
    and "NewRGBA alloc (Rect 0 0 (lay_Width layout) (lay_Height layout)) = Inr canvas"
  shows "\<exists>sheet meta. createSpritesheet alloc over images layout = Inr (sheet, meta)
           \<and> length (meta_Sprites meta) = length images
           \<and> (\<forall>i < length images. meta_Sprites meta ! i =
                 \<lparr>spr_Name = info_Filename (images ! i),
                  spr_X = go_mul (go_rem (int i) (lay_Cols layout))
                            (go_add (lay_TileWidth layout) (lay_Padding layout)),
                  spr_Y = go_mul (go_quo (int i) (lay_Cols layout))
                            (go_add (lay_TileHeight layout) (lay_Padding layout)),
                  spr_Width = lay_TileWidth layout,
                  spr_Height = lay_TileHeight layout,
                  spr_Index = int i\<rparr>)"
proof -
  from place_images_sprites [OF assms(1), of over images 0
      "blank (Rect 0 0 (lay_Width layout) (lay_Height layout))"
      "\<lparr>meta_Width = lay_Width layout, meta_Height = lay_Height layout,
        meta_TileWidth = lay_TileWidth layout, meta_TileHeight = lay_TileHeight layout,
        meta_Cols = lay_Cols layout, meta_Rows = lay_Rows layout,
        meta_Padding = lay_Padding layout, meta_Sprites = []\<rparr>"]
  obtain sheet meta where
    r: "createSpritesheet alloc over images layout = Inr (sheet, meta)"
    and s: "meta_Sprites meta =
               map (\<lambda>(k, info).
                     \<lparr>spr_Name = info_Filename info,
                      spr_X = go_mul (go_rem (int k) (lay_Cols layout))
                                (go_add (lay_TileWidth layout) (lay_Padding layout)),
                      spr_Y = go_mul (go_quo (int k) (lay_Cols layout))
                                (go_add (lay_TileHeight layout) (lay_Padding layout)),
                      spr_Width = lay_TileWidth layout,
                      spr_Height = lay_TileHeight layout,
                      spr_Index = int k\<rparr>)
                   (enumerate 0 images)"
    unfolding createSpritesheet_place [OF assms(2)] by auto
  have "length (meta_Sprites meta) = length images" by (simp add: s)
  moreover have "\<forall>i < length images. meta_Sprites meta ! i =
                 \<lparr>spr_Name = info_Filename (images ! i),
                  spr_X = go_mul (go_rem (int i) (lay_Cols layout))
                            (go_add (lay_TileWidth layout) (lay_Padding layout)),
                  spr_Y = go_mul (go_quo (int i) (lay_Cols layout))
                            (go_add (lay_TileHeight layout) (lay_Padding layout)),
                  spr_Width = lay_TileWidth layout,
                  spr_Height = lay_TileHeight layout,
                  spr_Index = int i\<rparr>"
    by (simp add: s nth_enumerate_eq)
  ultimately show ?thesis using r by blast
qed

text \<open>
  The pixels of the sheet: inside the cell of the tile at index \<open>i\<close> the sheet holds
  that tile, drawn over the transparent canvas with its point \<open>(0, 0)\<close> at the origin
  of the cell.
\<close>

lemma createSpritesheet_pixels:
  assumes r: "createSpritesheet alloc over images layout = Inr (sheet, meta)"
    and c: "0 < lay_Cols layout" and n: "int (length images) < 2 ^ 63"
    and t: "0 \<le> lay_TileWidth layout" "0 \<le> lay_TileHeight layout" "0 \<le> lay_Padding layout"
    and rx: "lay_Cols layout * (lay_TileWidth layout + lay_Padding layout) < 2 ^ 63"
    and ry: "(int (length images) div lay_Cols layout + 1)
               * (lay_TileHeight layout + lay_Padding layout) < 2 ^ 63"
    and i: "i < length images"
    and x: "(int i mod lay_Cols layout) * (lay_TileWidth layout + lay_Padding layout) \<le> x"
      "x < (int i mod lay_Cols layout) * (lay_TileWidth layout + lay_Padding layout)
             + lay_TileWidth layout"
    and y: "(int i div lay_Cols layout) * (lay_TileHeight layout + lay_Padding layout) \<le> y"
      "y < (int i div lay_Cols layout) * (lay_TileHeight layout + lay_Padding layout)
             + lay_TileHeight layout"
    and b: "inside x y (Rect 0 0 (lay_Width layout) (lay_Height layout))"
  shows "At sheet x y =
           (if inside (x - (int i mod lay_Cols layout) * (lay_TileWidth layout + lay_Padding layout))
                      (y - (int i div lay_Cols layout) * (lay_TileHeight layout + lay_Padding layout))
                      (Bounds (info_Image (images ! i)))
            then over (At (info_Image (images ! i))
                         (x - (int i mod lay_Cols layout) * (lay_TileWidth layout + lay_Padding layout))
                         (y - (int i div lay_Cols layout) * (lay_TileHeight layout + lay_Padding layout)))
                   transparent
            else transparent)"
proof -
  let ?R = "Rect 0 0 (lay_Width layout) (lay_Height layout)"
  let ?c = "lay_Cols layout"
  let ?s = "lay_TileWidth layout + lay_Padding layout"
  let ?u = "lay_TileHeight layout + lay_Padding layout"
  obtain canvas where a: "NewRGBA alloc ?R = Inr canvas"
    using r by (cases "NewRGBA alloc ?R") (simp_all add: createSpritesheet_def)
  note p = r [unfolded createSpritesheet_place [OF a]]
  have ex: "destRect layout (int k) =
           \<lparr>Min_X = (int k mod ?c) * ?s, Min_Y = (int k div ?c) * ?u,
            Max_X = (int k mod ?c) * ?s + lay_TileWidth layout,
            Max_Y = (int k div ?c) * ?u + lay_TileHeight layout\<rparr>"
    if k: "k < length images" for k
  proof -
    have k63: "int k < 2 ^ 63" using k n by linarith
    have "int k div ?c \<le> int (length images) div ?c"
      using k c by (intro zdiv_mono1) simp_all
    moreover have "0 \<le> ?u" using t by simp
    ultimately have "(int k div ?c + 1) * ?u \<le> (int (length images) div ?c + 1) * ?u"
      by (intro mult_right_mono) simp_all
    with ry have "(int k div ?c + 1) * ?u < 2 ^ 63" by linarith
    from destRect_exact [OF c _ k63 t rx this] show ?thesis by simp
  qed
  have ini: "inside x y (destRect layout (0 + int i))"
    using x y by (simp add: ex [OF i] inside_def)
  have others: "\<forall>k < length images. k \<noteq> i \<longrightarrow> \<not> inside x y (destRect layout (0 + int k))"
  proof (intro allI impI)
    fix k assume k: "k < length images" "k \<noteq> i"
    have ne: "int i \<noteq> int k" using k(2) by simp
    from cells_disjoint [OF c _ _ _ _ _ _ ne x y] t
    have "\<not> ((int k mod ?c) * ?s \<le> x \<and> x < (int k mod ?c) * ?s + lay_TileWidth layout
            \<and> (int k div ?c) * ?u \<le> y \<and> y < (int k div ?c) * ?u + lay_TileHeight layout)"
      by simp
    then show "\<not> inside x y (destRect layout (0 + int k))"
      by (simp add: ex [OF k(1)] inside_def)
  qed
  from place_images_sheet(3) [OF p i others]
  have "At sheet x y =
      At (Draw over (blank ?R) (destRect layout (int i)) (info_Image (images ! i)) (0, 0)) x y"
    by simp
  also have "\<dots> =
      (if inside (x - (int i mod ?c) * ?s) (y - (int i div ?c) * ?u) (Bounds (info_Image (images ! i)))
       then over (At (info_Image (images ! i)) (x - (int i mod ?c) * ?s) (y - (int i div ?c) * ?u))
              transparent
       else transparent)"
    using ini b by (simp add: Draw_def Let_def blank_def ex [OF i])
  finally show ?thesis .
qed

text \<open>
  C1.  With a positive column count and a canvas that can be allocated,
  \<open>createSpritesheet\<close> succeeds and returns one sprite per tile, in the order of the
  input; the sprite at position \<open>i\<close> carries the name of the \<open>i\<close>-th tile, the index
  \<open>i\<close>, the tile size of the layout as its width and height, and the origin
  \<open>x = (i mod columns) * (tileWidth + padding)\<close>,
  \<open>y = (i div columns) * (tileHeight + padding)\<close>, whenever these values are
  representable as a Go \<open>int\<close>.  The sheet has the bounds of the canvas, and for a tile
  size and a padding that are not negative the pixels of the sheet in the cell that
  starts at that origin are those of the \<open>i\<close>-th tile, drawn over the transparent
  canvas with the tile's point \<open>(0, 0)\<close> at the origin.
\<close>

theorem createSpritesheet_placement:
  assumes "0 < lay_Cols layout" and "images \<noteq> []" and "int (length images) < 2 ^ 63"
    and "\<not> isl (NewRGBA alloc (Rect 0 0 (lay_Width layout) (lay_Height layout)))"
  shows "\<exists>sheet meta. createSpritesheet alloc over images layout = Inr (sheet, meta)
          \<and> length (meta_Sprites meta) = length images
          \<and> (\<forall>i < length images.
               spr_Name (meta_Sprites meta ! i) = info_Filename (images ! i)
             \<and> spr_Index (meta_Sprites meta ! i) = int i
             \<and> spr_Width (meta_Sprites meta ! i) = lay_TileWidth layout
             \<and> spr_Height (meta_Sprites meta ! i) = lay_TileHeight layout
             \<and> (in64 (lay_TileWidth layout + lay_Padding layout)
                 \<and> in64 ((int i mod lay_Cols layout) * (lay_TileWidth layout + lay_Padding layout))
                \<longrightarrow> spr_X (meta_Sprites meta ! i) =
                      (int i mod lay_Cols layout) * (lay_TileWidth layout + lay_Padding layout))
             \<and> (in64 (lay_TileHeight layout + lay_Padding layout)
                 \<and> in64 ((int i div lay_Cols layout) * (lay_TileHeight layout + lay_Padding layout))
                \<longrightarrow> spr_Y (meta_Sprites meta ! i) =
                      (int i div lay_Cols layout) * (lay_TileHeight layout + lay_Padding layout)))
          \<and> Bounds sheet = Rect 0 0 (lay_Width layout) (lay_Height layout)
          \<and> (0 \<le> lay_TileWidth layout \<and> 0 \<le> lay_TileHeight layout \<and> 0 \<le> lay_Padding layout
              \<and> lay_Cols layout * (lay_TileWidth layout + lay_Padding layout) < 2 ^ 63
              \<and> (int (length images) div lay_Cols layout + 1)
                   * (lay_TileHeight layout + lay_Padding layout) < 2 ^ 63
             \<longrightarrow> (\<forall>i < length images. \<forall>x y.
                    (int i mod lay_Cols layout) * (lay_TileWidth layout + lay_Padding layout) \<le> x
                  \<and> x < (int i mod lay_Cols layout) * (lay_TileWidth layout + lay_Padding layout)
                          + lay_TileWidth layout
                  \<and> (int i div lay_Cols layout) * (lay_TileHeight layout + lay_Padding layout) \<le> y
                  \<and> y < (int i div lay_Cols layout) * (lay_TileHeight layout + lay_Padding layout)
                          + lay_TileHeight layout
                  \<and> inside x y (Rect 0 0 (lay_Width layout) (lay_Height layout))
                  \<longrightarrow> At sheet x y =
                       (if inside
                             (x - (int i mod lay_Cols layout) * (lay_TileWidth layout + lay_Padding layout))
                             (y - (int i div lay_Cols layout) * (lay_TileHeight layout + lay_Padding layout))
                             (Bounds (info_Image (images ! i)))
                        then over
                               (At (info_Image (images ! i))
                                  (x - (int i mod lay_Cols layout)
                                         * (lay_TileWidth layout + lay_Padding layout))
                                  (y - (int i div lay_Cols layout)
                                         * (lay_TileHeight layout + lay_Padding layout)))
                               transparent
                        else transparent)))"
proof -
  let ?R = "Rect 0 0 (lay_Width layout) (lay_Height layout)"
  from assms(1) have nz: "lay_Cols layout \<noteq> 0" by simp
  from assms(4) obtain canvas where a: "NewRGBA alloc ?R = Inr canvas"
    by (cases "NewRGBA alloc ?R") simp_all
  from createSpritesheet_nth [OF nz a, of over images]
  obtain sheet meta where
    r: "createSpritesheet alloc over images layout = Inr (sheet, meta)"
    and len: "length (meta_Sprites meta) = length images"
    and nth: "\<forall>i < length images. meta_Sprites meta ! i =
                 \<lparr>spr_Name = info_Filename (images ! i),
                  spr_X = go_mul (go_rem (int i) (lay_Cols layout))
                            (go_add (lay_TileWidth layout) (lay_Padding layout)),
                  spr_Y = go_mul (go_quo (int i) (lay_Cols layout))
                            (go_add (lay_TileHeight layout) (lay_Padding layout)),
                  spr_Width = lay_TileWidth layout,
                  spr_Height = lay_TileHeight layout,
                  spr_Index = int i\<rparr>"
    by blast
  have sprites: "spr_Name (meta_Sprites meta ! i) = info_Filename (images ! i)
      \<and> spr_Index (meta_Sprites meta ! i) = int i
      \<and> spr_Width (meta_Sprites meta ! i) = lay_TileWidth layout
      \<and> spr_Height (meta_Sprites meta ! i) = lay_TileHeight layout
      \<and> (in64 (lay_TileWidth layout + lay_Padding layout)
          \<and> in64 ((int i mod lay_Cols layout) * (lay_TileWidth layout + lay_Padding layout))
         \<longrightarrow> spr_X (meta_Sprites meta ! i) =
               (int i mod lay_Cols layout) * (lay_TileWidth layout + lay_Padding layout))
      \<and> (in64 (lay_TileHeight layout + lay_Padding layout)
          \<and> in64 ((int i div lay_Cols layout) * (lay_TileHeight layout + lay_Padding layout))
         \<longrightarrow> spr_Y (meta_Sprites meta ! i) =
               (int i div lay_Cols layout) * (lay_TileHeight layout + lay_Padding layout))"
    if i: "i < length images" for i
  proof -
    have i63: "int i < 2 ^ 63" using i assms(3) by linarith
    have rem: "go_rem (int i) (lay_Cols layout) = int i mod lay_Cols layout"
      using assms(1) by (simp add: go_rem_nonneg)
    have quo: "go_quo (int i) (lay_Cols layout) = int i div lay_Cols layout"
      using assms(1) i63 by (simp add: go_quo_nonneg)
    show ?thesis
      using nth i by (simp add: rem quo go_mul_def go_add_def wrap64_id)
  qed
  have bounds: "Bounds sheet = ?R"
    using place_images_sheet(1) [OF r [unfolded createSpritesheet_place [OF a]]]
    by (simp add: blank_def)
  note pixels = createSpritesheet_pixels [OF r assms(1,3)]
  from r len sprites bounds pixels show ?thesis by blast
qed


lemma NewRGBA_130: "NewRGBA alloc_4G (Rect 0 0 130 130) = Inr (blank (Rect 0 0 130 130))"
proof -
  have d: "Dx (Rect 0 0 130 130) = 130" "Dy (Rect 0 0 130 130) = 130"
    by (simp_all add: Dx_def Dy_def Rect_def go_sub_def wrap64_id in64_def)
  show ?thesis by (rule NewRGBA_ok) (simp_all add: d alloc_4G_def)
qed

theorem createSpritesheet_placement_witness:
  "\<exists>sheet meta.
     createSpritesheet alloc_4G (\<lambda>s d. s) [tile64 ''a'', tile64 ''b'', tile64 ''c''] layout_2x2
       = Inr (sheet, meta)
     \<and> map (\<lambda>s. (spr_X s, spr_Y s)) (meta_Sprites meta) = [(0, 0), (66, 0), (0, 66)]
     \<and> At sheet 66 0 = red \<and> At sheet 63 129 = red"
proof -
  let ?images = "[tile64 ''a'', tile64 ''b'', tile64 ''c'']"
  have h1: "0 < lay_Cols layout_2x2" by (simp add: layout_2x2_def)
  have h2: "?images \<noteq> []" by simp
  have h3: "int (length ?images) < 2 ^ 63" by simp
  have h4: "\<not> isl (NewRGBA alloc_4G (Rect 0 0 (lay_Width layout_2x2) (lay_Height layout_2x2)))"
    by (simp add: layout_2x2_def NewRGBA_130)
  from createSpritesheet_placement [OF h1 h2 h3 h4, of "\<lambda>s d. s"]
  obtain sheet meta where
    r: "createSpritesheet alloc_4G (\<lambda>s d. s) ?images layout_2x2 = Inr (sheet, meta)"
    and len: "length (meta_Sprites meta) = length ?images"
    and all: "\<forall>i < length ?images.
               spr_Name (meta_Sprites meta ! i) = info_Filename (?images ! i)
             \<and> spr_Index (meta_Sprites meta ! i) = int i
             \<and> spr_Width (meta_Sprites meta ! i) = lay_TileWidth layout_2x2
             \<and> spr_Height (meta_Sprites meta ! i) = lay_TileHeight layout_2x2
             \<and> (in64 (lay_TileWidth layout_2x2 + lay_Padding layout_2x2)
                 \<and> in64 ((int i mod lay_Cols layout_2x2) * (lay_TileWidth layout_2x2 + lay_Padding layout_2x2))
                \<longrightarrow> spr_X (meta_Sprites meta ! i) =
                      (int i mod lay_Cols layout_2x2) * (lay_TileWidth layout_2x2 + lay_Padding layout_2x2))
             \<and> (in64 (lay_TileHeight layout_2x2 + lay_Padding layout_2x2)
                 \<and> in64 ((int i div lay_Cols layout_2x2) * (lay_TileHeight layout_2x2 + lay_Padding layout_2x2))
                \<longrightarrow> spr_Y (meta_Sprites meta ! i) =
                      (int i div lay_Cols layout_2x2) * (lay_TileHeight layout_2x2 + lay_Padding layout_2x2))"
    and pix: "0 \<le> lay_TileWidth layout_2x2 \<and> 0 \<le> lay_TileHeight layout_2x2
              \<and> 0 \<le> lay_Padding layout_2x2
              \<and> lay_Cols layout_2x2 * (lay_TileWidth layout_2x2 + lay_Padding layout_2x2) < 2 ^ 63
              \<and> (int (length ?images) div lay_Cols layout_2x2 + 1)
                   * (lay_TileHeight layout_2x2 + lay_Padding layout_2x2) < 2 ^ 63
             \<longrightarrow> (\<forall>i < length ?images. \<forall>x y.
                    (int i mod lay_Cols layout_2x2) * (lay_TileWidth layout_2x2 + lay_Padding layout_2x2) \<le> x
                  \<and> x < (int i mod lay_Cols layout_2x2) * (lay_TileWidth layout_2x2 + lay_Padding layout_2x2)
                          + lay_TileWidth layout_2x2
                  \<and> (int i div lay_Cols layout_2x2) * (lay_TileHeight layout_2x2 + lay_Padding layout_2x2) \<le> y
                  \<and> y < (int i div lay_Cols layout_2x2) * (lay_TileHeight layout_2x2 + lay_Padding layout_2x2)
                          + lay_TileHeight layout_2x2
                  \<and> inside x y (Rect 0 0 (lay_Width layout_2x2) (lay_Height layout_2x2))
                  \<longrightarrow> At sheet x y =
                       (if inside
                             (x - (int i mod lay_Cols layout_2x2) * (lay_TileWidth layout_2x2 + lay_Padding layout_2x2))
                             (y - (int i div lay_Cols layout_2x2) * (lay_TileHeight layout_2x2 + lay_Padding layout_2x2))
                             (Bounds (info_Image (?images ! i)))
                        then (At (info_Image (?images ! i))
                                  (x - (int i mod lay_Cols layout_2x2)
                                         * (lay_TileWidth layout_2x2 + lay_Padding layout_2x2))
                                  (y - (int i div lay_Cols layout_2x2)
                                         * (lay_TileHeight layout_2x2 + lay_Padding layout_2x2)))
                        else transparent))"
    by blast
  from all have a0: "spr_X (meta_Sprites meta ! 0) = 0 \<and> spr_Y (meta_Sprites meta ! 0) = 0"
    by (simp add: layout_2x2_def in64_def)
  from all [rule_format, of 1]
  have a1: "spr_X (meta_Sprites meta ! 1) = 66 \<and> spr_Y (meta_Sprites meta ! 1) = 0"
    by (simp add: layout_2x2_def in64_def)
  from all [rule_format, of 2]
  have a2: "spr_X (meta_Sprites meta ! 2) = 0 \<and> spr_Y (meta_Sprites meta ! 2) = 66"
    by (simp add: layout_2x2_def in64_def)
  from len obtain s0 s1 s2 where l: "meta_Sprites meta = [s0, s1, s2]"
    by (auto simp: length_Suc_conv numeral_3_eq_3)
  from a0 a1 a2
  have m: "map (\<lambda>s. (spr_X s, spr_Y s)) (meta_Sprites meta) = [(0, 0), (66, 0), (0, 66)]"
    by (simp add: l)
  have pre: "0 \<le> lay_TileWidth layout_2x2 \<and> 0 \<le> lay_TileHeight layout_2x2
              \<and> 0 \<le> lay_Padding layout_2x2
              \<and> lay_Cols layout_2x2 * (lay_TileWidth layout_2x2 + lay_Padding layout_2x2) < 2 ^ 63
              \<and> (int (length ?images) div lay_Cols layout_2x2 + 1)
                   * (lay_TileHeight layout_2x2 + lay_Padding layout_2x2) < 2 ^ 63"
    by (simp add: layout_2x2_def)
  note px = pix [rule_format, OF pre]
  have p1: "At sheet 66 0 = red"
    using px [of 1 66 0]
    by (simp add: layout_2x2_def tile64_def solid_def inside_def Rect_def)
  have p2: "At sheet 63 129 = red"
    using px [of 2 63 129]
    by (simp add: layout_2x2_def tile64_def solid_def inside_def Rect_def)
  show ?thesis
    by (rule exI [of _ sheet], rule exI [of _ meta]) (simp only: r m p1 p2)
qed

text \<open>
  C2 (as the code has it).  \<open>createSpritesheet\<close> has no check of the tile sizes and no
  error for one.  It fails in two ways only, both panics: when \<open>image.NewRGBA\<close> cannot
  make the canvas, and when there is a tile to place and the column count is zero.
  In every other case it succeeds, for every sequence of tiles, whatever their
  dimensions, and also for the empty sequence, and records the tile size of the
  layout as the width and height of each sprite.  The empty input is \<open>Generate\<close>'s to
  reject, which fails with its error for an empty list of files before it loads
  anything.
\<close>

theorem createSpritesheet_unchecked:
  "(isl (createSpritesheet alloc over images layout) \<longleftrightarrow>
      isl (NewRGBA alloc (Rect 0 0 (lay_Width layout) (lay_Height layout)))
      \<or> (images \<noteq> [] \<and> lay_Cols layout = 0))
   \<and> (\<forall>e. createSpritesheet alloc over images layout = Inl e \<longrightarrow> (\<exists>p. e = Panic p))
   \<and> (\<forall>sheet meta. createSpritesheet alloc over images layout = Inr (sheet, meta) \<longrightarrow>
         length (meta_Sprites meta) = length images
       \<and> (\<forall>s \<in> set (meta_Sprites meta).
             spr_Width s = lay_TileWidth layout \<and> spr_Height s = lay_TileHeight layout))
   \<and> Generate alloc over loadImage saveSpritesheet cfg [] outputPath = Inl NoPNGFiles"
proof -
  let ?R = "Rect 0 0 (lay_Width layout) (lay_Height layout)"
  let ?C = "createSpritesheet alloc over images layout"
  have G: "Generate alloc over loadImage saveSpritesheet cfg [] outputPath = Inl NoPNGFiles"
    by (simp add: Generate_def)
  show ?thesis
  proof (cases "NewRGBA alloc ?R")
    case (Inl p)
    from createSpritesheet_panic [OF Inl, of over images] Inl G show ?thesis by simp
  next
    case (Inr canvas)
    show ?thesis
    proof (cases "images \<noteq> [] \<and> lay_Cols layout = 0")
      case True
      then obtain a rest where i: "images = a # rest" and z: "lay_Cols layout = 0"
        by (cases images) auto
      have "?C = Inl (Panic DivideByZero)"
        unfolding createSpritesheet_place [OF Inr] i by (rule place_images_zero [OF z])
      with Inr True G show ?thesis by simp
    next
      case False
      have "\<exists>sheet meta. ?C = Inr (sheet, meta)
           \<and> length (meta_Sprites meta) = length images
           \<and> (\<forall>s \<in> set (meta_Sprites meta).
               spr_Width s = lay_TileWidth layout \<and> spr_Height s = lay_TileHeight layout)"
      proof (cases "images = []")
        case True
        then show ?thesis by (simp add: createSpritesheet_place [OF Inr])
      next
        case ne: False
        with False have nz: "lay_Cols layout \<noteq> 0" by simp
        from createSpritesheet_nth [OF nz Inr, of over images]
        obtain sheet meta where
          r: "?C = Inr (sheet, meta)"
          and len: "length (meta_Sprites meta) = length images"
          and nth: "\<forall>i < length images. meta_Sprites meta ! i =
                 \<lparr>spr_Name = info_Filename (images ! i),
                  spr_X = go_mul (go_rem (int i) (lay_Cols layout))
                            (go_add (lay_TileWidth layout) (lay_Padding layout)),
                  spr_Y = go_mul (go_quo (int i) (lay_Cols layout))
                            (go_add (lay_TileHeight layout) (lay_Padding layout)),
                  spr_Width = lay_TileWidth layout,
                  spr_Height = lay_TileHeight layout,
                  spr_Index = int i\<rparr>"
          by blast
        have "spr_Width s = lay_TileWidth layout \<and> spr_Height s = lay_TileHeight layout"
          if "s \<in> set (meta_Sprites meta)" for s
        proof -
          from that obtain i where "i < length (meta_Sprites meta)" and "s = meta_Sprites meta ! i"
            by (auto simp: in_set_conv_nth)
          with nth len show ?thesis by simp
        qed
        with r len show ?thesis by blast
      qed
      then obtain sheet meta where r: "?C = Inr (sheet, meta)"
        and f: "length (meta_Sprites meta) = length images
           \<and> (\<forall>s \<in> set (meta_Sprites meta).
               spr_Width s = lay_TileWidth layout \<and> spr_Height s = lay_TileHeight layout)"
        by blast
      from r f Inr False G show ?thesis by simp
    qed
  qed
qed

theorem createSpritesheet_unchecked_witness:
  "\<exists>sheet meta. createSpritesheet alloc_4G (\<lambda>s d. s) [tile10] layout_2x2 = Inr (sheet, meta)
     \<and> map (\<lambda>s. (spr_Width s, spr_Height s)) (meta_Sprites meta) = [(64, 64)]"
proof -
  note u = createSpritesheet_unchecked [of alloc_4G "\<lambda>s d. s" "[tile10]" layout_2x2]
  have ok: "\<not> (isl (NewRGBA alloc_4G (Rect 0 0 (lay_Width layout_2x2) (lay_Height layout_2x2)))
             \<or> ([tile10] \<noteq> [] \<and> lay_Cols layout_2x2 = 0))"
    by (simp add: layout_2x2_def NewRGBA_130)
  with u have "\<not> isl (createSpritesheet alloc_4G (\<lambda>s d. s) [tile10] layout_2x2)" by blast
  then obtain sheet meta where
    r: "createSpritesheet alloc_4G (\<lambda>s d. s) [tile10] layout_2x2 = Inr (sheet, meta)"
    by (cases "createSpritesheet alloc_4G (\<lambda>s d. s) [tile10] layout_2x2") auto
  with u have len: "length (meta_Sprites meta) = length [tile10]"
    and all: "\<forall>s \<in> set (meta_Sprites meta).
               spr_Width s = lay_TileWidth layout_2x2 \<and> spr_Height s = lay_TileHeight layout_2x2"
    by blast+
  from len obtain s0 where l: "meta_Sprites meta = [s0]"
    by (auto simp: length_Suc_conv)
  from all have m: "map (\<lambda>s. (spr_Width s, spr_Height s)) (meta_Sprites meta) = [(64, 64)]"
    by (simp add: l layout_2x2_def)
  show ?thesis
    by (rule exI [of _ sheet], rule exI [of _ meta]) (simp only: r m)
qed

text \<open>
  The claim C2 as it is written fails: a tile of 10 by 10 pixels in a layout of 64
  by 64 tiles is placed without an error, and so is the empty sequence of tiles.
\<close>

theorem createSpritesheet_mismatch_counterexample:
  "info_Width tile10 \<noteq> lay_TileWidth layout_2x2
   \<and> info_Height tile10 \<noteq> lay_TileHeight layout_2x2
   \<and> Dx (Bounds (info_Image tile10)) = 10
   \<and> Dy (Bounds (info_Image tile10)) = 10
   \<and> \<not> isl (createSpritesheet alloc_4G (\<lambda>s d. s) [tile10] layout_2x2)
   \<and> \<not> isl (createSpritesheet alloc_4G (\<lambda>s d. s) [] layout_2x2)"
proof -
  have a: "NewRGBA alloc_4G (Rect 0 0 (lay_Width layout_2x2) (lay_Height layout_2x2))
      = Inr (blank (Rect 0 0 130 130))"
    by (simp add: layout_2x2_def NewRGBA_130)
  have "\<not> isl (createSpritesheet alloc_4G (\<lambda>s d. s) [tile10] layout_2x2)"
    unfolding createSpritesheet_place [OF a] by (simp add: layout_2x2_def Let_def)
  moreover have "\<not> isl (createSpritesheet alloc_4G (\<lambda>s d. s) [] layout_2x2)"
    unfolding createSpritesheet_place [OF a] by simp
  moreover have "Dx (Bounds (info_Image tile10)) = 10" "Dy (Bounds (info_Image tile10)) = 10"
    by (simp_all add: tile10_def ramp10_def Dx_def Dy_def Rect_def go_sub_def wrap64_id in64_def)
  ultimately show ?thesis by (simp add: tile10_def layout_2x2_def)
qed

section \<open>The layout\<close>

lemma ceiling_rat_real:
  "\<lceil>(of_int n :: rat) / of_int c\<rceil> = \<lceil>real_of_int n / real_of_int c\<rceil>"
  by (simp only: ceiling_divide_eq_div)

lemma ceil_rows_small:
  assumes "0 < n" "n \<le> 2 ^ 50" "0 < c" "c < 2 ^ 53"
  shows "int_of_float64 (Ceil (fdiv (float64_of_int n) (float64_of_int c)))
           = \<lceil>real_of_int n / real_of_int c\<rceil>"
proof -
  have n52: "n \<le> 2 ^ 52" using assms(2) by simp
  show ?thesis
    using fdiv_ceil [OF assms(1) n52 assms(3,4)] by (simp only: ceiling_rat_real)
qed

text \<open>
  A divisor from \<open>2 ^ 53\<close> on may be rounded by the conversion to \<open>float64\<close>, but the
  quotient is then at most one and its ceiling is one.
\<close>

lemma ceil_rows_big:
  assumes "0 < n" "n \<le> 2 ^ 50" "2 ^ 53 \<le> c" "c < 2 ^ 63"
  shows "int_of_float64 (Ceil (fdiv (float64_of_int n) (float64_of_int c)))
           = \<lceil>real_of_int n / real_of_int c\<rceil>"
proof -
  have fn: "float64_of_int n = Some (of_int n)" using assms(1,2) by (intro float64_of_int_exact) simp_all
  have c_lo: "of_int (2 ^ 52) * (2::rat) powi 1 \<le> of_int c" using assms(3) by simp
  have "(of_int c :: rat) < 2 ^ 63" using assms(4) by simp
  also have "(2 ^ 63 :: rat) < 2 ^ 1023" by simp
  finally have c_hi: "(of_int c :: rat) < 2 ^ 1023" .
  from fl_lower [OF _ _ _ c_lo c_hi]
  obtain d where d: "fl (of_int c) = Some d" and d_lo: "2 ^ 53 \<le> d" by auto
  have c_pos: "0 < (of_int c :: rat)" using assms(3) by simp
  have c_up: "(of_int c :: rat) \<le> of_int (2 ^ 52) * 2 powi 11" using assms(4) by simp
  have "of_int (2 ^ 52) * (2::rat) powi 11 < 2 ^ 1024" by simp
  from fl_upper [OF _ _ _ c_pos c_up this]
  obtain d' where d': "fl (of_int c) = Some d'" and d_hi': "d' \<le> of_int (2 ^ 52) * 2 powi 11" by auto
  from d d' d_hi' have d_hi: "d \<le> 2 ^ 63" by simp
  have d0: "0 < d" using d_lo by simp
  define x where "x = (of_int n :: rat) / d"
  have fc: "float64_of_int c = Some d" by (simp add: float64_of_int_def d)
  have q: "fdiv (float64_of_int n) (float64_of_int c) = fl x"
    using d0 by (simp add: fdiv_def fn fc x_def)
  have x0: "0 < x" using assms(1) d0 by (simp add: x_def)
  have x1: "x \<le> of_int 1 * 2 powi 0"
  proof -
    have "(of_int n :: rat) \<le> 2 ^ 50" using assms(2) by simp
    also have "(2 ^ 50 :: rat) \<le> 2 ^ 53" by simp
    also have "\<dots> \<le> d" by (rule d_lo)
    finally show ?thesis using d0 by (simp add: x_def)
  qed
  have "of_int 1 * (2::rat) powi 0 < 2 ^ 1024" by simp
  from fl_upper [OF _ _ _ x0 x1 this]
  obtain r where r: "fl x = Some r" and r_hi: "r \<le> 1" by auto
  have x_lo: "of_int 1 * 2 powi (- 63) \<le> x"
  proof -
    have a: "1 / d \<le> of_int n / d" using assms(1) d0 by (simp add: divide_right_mono)
    have b: "1 / (2 ^ 63 :: rat) \<le> 1 / d" using d_hi d0 by (simp add: frac_le)
    have c: "of_int 1 * (2::rat) powi (- 63) = 1 / 2 ^ 63" by (simp add: power_int_minus_divide)
    from b a have "1 / (2 ^ 63 :: rat) \<le> of_int n / d" by (rule order_trans)
    then show ?thesis by (simp only: c x_def)
  qed
  have "x < 2 ^ 1023" using x1 by simp
  from fl_lower [OF _ _ _ x_lo this]
  obtain r' where r': "fl x = Some r'" and r_lo': "of_int 1 * 2 powi (- 63) \<le> r'" by auto
  have "0 < of_int 1 * (2::rat) powi (- 63)" by simp
  with r r' r_lo' have r_lo: "0 < r" by simp
  have cr: "\<lceil>r\<rceil> = 1" using r_lo r_hi by (simp add: ceiling_eq_iff)
  have "int_of_float64 (Ceil (fdiv (float64_of_int n) (float64_of_int c))) = 1"
    by (simp add: q r Ceil_def int_of_float64_def cr in64_def)
  moreover have "\<lceil>real_of_int n / real_of_int c\<rceil> = 1"
  proof -
    have "0 < real_of_int n / real_of_int c" using assms(1,3) by simp
    moreover have "real_of_int n \<le> real_of_int c" using assms(2,3) by simp
    then have "real_of_int n / real_of_int c \<le> 1" using assms(3) by simp
    ultimately show ?thesis by (simp add: ceiling_eq_iff)
  qed
  ultimately show ?thesis by simp
qed

lemma ceil_rows:
  assumes "0 < n" "n \<le> 2 ^ 50" "0 < c" "c < 2 ^ 63"
  shows "int_of_float64 (Ceil (fdiv (float64_of_int n) (float64_of_int c)))
           = \<lceil>real_of_int n / real_of_int c\<rceil>"
    and "0 < \<lceil>real_of_int n / real_of_int c\<rceil>"
    and "\<lceil>real_of_int n / real_of_int c\<rceil> \<le> n"
    and "n \<le> c * \<lceil>real_of_int n / real_of_int c\<rceil>"
proof -
  show "int_of_float64 (Ceil (fdiv (float64_of_int n) (float64_of_int c)))
           = \<lceil>real_of_int n / real_of_int c\<rceil>"
  proof (cases "c < 2 ^ 53")
    case True
    then show ?thesis by (rule ceil_rows_small [OF assms(1,2,3)])
  next
    case False
    then have "2 ^ 53 \<le> c" by simp
    then show ?thesis using assms(4) by (rule ceil_rows_big [OF assms(1,2)])
  qed
  have pos: "0 < real_of_int n / real_of_int c" using assms by simp
  then show "0 < \<lceil>real_of_int n / real_of_int c\<rceil>" by (simp add: less_ceiling_iff)
  have "real_of_int n / real_of_int c \<le> real_of_int n / 1"
    using assms by (intro divide_left_mono) simp_all
  then show "\<lceil>real_of_int n / real_of_int c\<rceil> \<le> n" by (simp add: ceiling_le_iff)
  have c0: "0 < real_of_int c" using assms(3) by simp
  have "real_of_int n / real_of_int c \<le> of_int \<lceil>real_of_int n / real_of_int c\<rceil>"
    by (rule le_of_int_ceiling)
  then have "real_of_int n \<le> of_int \<lceil>real_of_int n / real_of_int c\<rceil> * real_of_int c"
    by (simp only: pos_divide_le_eq [OF c0])
  then have "real_of_int n \<le> real_of_int c * of_int \<lceil>real_of_int n / real_of_int c\<rceil>"
    by (simp only: mult.commute)
  then have "real_of_int n \<le> real_of_int (c * \<lceil>real_of_int n / real_of_int c\<rceil>)" by simp
  then show "n \<le> c * \<lceil>real_of_int n / real_of_int c\<rceil>" by (simp only: of_int_le_iff)
qed

lemma canvas_exact:
  assumes "0 < c" "c < 2 ^ 63" "0 < t" "0 \<le> p" "in64 (c * t + (c - 1) * p)"
  shows "go_add (go_mul c t) (go_mul (go_sub c 1) p) = c * t + (c - 1) * p"
proof -
  have a: "0 \<le> c * t" using assms by simp
  have b: "0 \<le> (c - 1) * p" using assms by simp
  have c1: "in64 (c - 1)" using assms by (simp add: in64_def)
  have ct: "in64 (c * t)" using a b assms(5) by (simp add: in64_def)
  have cp: "in64 ((c - 1) * p)" using a b assms(5) by (simp add: in64_def)
  show ?thesis
    using c1 ct cp assms(5) by (simp add: go_add_def go_mul_def go_sub_def wrap64_id)
qed

lemma cell_origin:
  assumes "0 \<le> k" "k < c" "0 < t" "0 \<le> p" "in64 (c * t + (c - 1) * p)"
  shows "go_mul k (go_add t p) = k * (t + p)"
    and "0 \<le> k * (t + p)"
    and "k * (t + p) + t \<le> c * t + (c - 1) * p"
proof -
  have tp: "0 \<le> t + p" using assms by simp
  show nonneg: "0 \<le> k * (t + p)" using assms(1) tp by simp
  have "k * (t + p) \<le> (c - 1) * (t + p)" using assms(1,2) tp by (intro mult_right_mono) simp_all
  moreover have "(c - 1) * (t + p) + t = c * t + (c - 1) * p" by (simp add: algebra_simps)
  ultimately show le: "k * (t + p) + t \<le> c * t + (c - 1) * p" by linarith
  show "go_mul k (go_add t p) = k * (t + p)"
  proof (cases "k = 0")
    case True
    then show ?thesis by (simp add: go_mul_def wrap64_def)
  next
    case False
    with assms(1) have k1: "1 \<le> k" by simp
    have "1 * (t + p) \<le> k * (t + p)" using k1 tp by (intro mult_right_mono) simp_all
    with le assms(3,5) nonneg tp have i1: "in64 (t + p)" and i2: "in64 (k * (t + p))"
      by (simp_all add: in64_def)
    then show ?thesis by (simp add: go_mul_def go_add_def wrap64_id)
  qed
qed

text \<open>The three branches of \<open>calculateLayout\<close>.\<close>

lemma calculateLayout_fields:
  "lay_TileWidth (calculateLayout cfg n) = cfg_TileWidth cfg"
  "lay_TileHeight (calculateLayout cfg n) = cfg_TileHeight cfg"
  "lay_Padding (calculateLayout cfg n) = cfg_Padding cfg"
  "lay_Width (calculateLayout cfg n) =
     go_add (go_mul (lay_Cols (calculateLayout cfg n)) (cfg_TileWidth cfg))
            (go_mul (go_sub (lay_Cols (calculateLayout cfg n)) 1) (cfg_Padding cfg))"
  "lay_Height (calculateLayout cfg n) =
     go_add (go_mul (lay_Rows (calculateLayout cfg n)) (cfg_TileHeight cfg))
            (go_mul (go_sub (lay_Rows (calculateLayout cfg n)) 1) (cfg_Padding cfg))"
  by (simp_all add: calculateLayout_def Let_def split_def)

lemma calculateLayout_by_cols:
  assumes "0 < cfg_Cols cfg"
  shows "lay_Cols (calculateLayout cfg n) = cfg_Cols cfg"
    and "lay_Rows (calculateLayout cfg n) =
           int_of_float64 (Ceil (fdiv (float64_of_int n) (float64_of_int (cfg_Cols cfg))))"
  using assms by (simp_all add: calculateLayout_def Let_def)

lemma calculateLayout_by_rows:
  assumes "cfg_Cols cfg \<le> 0" "0 < cfg_Rows cfg"
  shows "lay_Rows (calculateLayout cfg n) = cfg_Rows cfg"
    and "lay_Cols (calculateLayout cfg n) =
           int_of_float64 (Ceil (fdiv (float64_of_int n) (float64_of_int (cfg_Rows cfg))))"
  using assms by (simp_all add: calculateLayout_def Let_def)

lemma calculateLayout_square:
  assumes "cfg_Cols cfg \<le> 0" "cfg_Rows cfg \<le> 0"
  shows "lay_Cols (calculateLayout cfg n) = int_of_float64 (Ceil (Sqrt (float64_of_int n)))"
    and "lay_Rows (calculateLayout cfg n) =
           int_of_float64 (Ceil (fdiv (float64_of_int n)
             (float64_of_int (int_of_float64 (Ceil (Sqrt (float64_of_int n)))))))"
  using assms by (simp_all add: calculateLayout_def Let_def)

lemma calculateLayout_grid_core:
  assumes n: "0 < n" "n \<le> 2 ^ 50"
    and hints: "cfg_Cols cfg < 2 ^ 63" "cfg_Rows cfg < 2 ^ 63"
  shows "(0 < cfg_Cols cfg \<longrightarrow>
            lay_Cols (calculateLayout cfg n) = cfg_Cols cfg
          \<and> lay_Rows (calculateLayout cfg n)
              = \<lceil>real_of_int n / real_of_int (lay_Cols (calculateLayout cfg n))\<rceil>)
       \<and> (cfg_Cols cfg \<le> 0 \<and> 0 < cfg_Rows cfg \<longrightarrow>
            lay_Rows (calculateLayout cfg n) = cfg_Rows cfg
          \<and> lay_Cols (calculateLayout cfg n)
              = \<lceil>real_of_int n / real_of_int (lay_Rows (calculateLayout cfg n))\<rceil>)
       \<and> (cfg_Cols cfg \<le> 0 \<and> cfg_Rows cfg \<le> 0 \<longrightarrow>
            lay_Cols (calculateLayout cfg n) = \<lceil>sqrt (real_of_int n)\<rceil>
          \<and> lay_Rows (calculateLayout cfg n)
              = \<lceil>real_of_int n / real_of_int (lay_Cols (calculateLayout cfg n))\<rceil>)
       \<and> 0 < lay_Cols (calculateLayout cfg n) \<and> lay_Cols (calculateLayout cfg n) < 2 ^ 63
       \<and> 0 < lay_Rows (calculateLayout cfg n) \<and> lay_Rows (calculateLayout cfg n) < 2 ^ 63
       \<and> n \<le> lay_Cols (calculateLayout cfg n) * lay_Rows (calculateLayout cfg n)"
proof -
  let ?L = "calculateLayout cfg n"
  have n53: "n < 2 ^ 63" using n(2) by simp
  consider (cols) "0 < cfg_Cols cfg"
    | (rows) "cfg_Cols cfg \<le> 0" "0 < cfg_Rows cfg"
    | (square) "cfg_Cols cfg \<le> 0" "cfg_Rows cfg \<le> 0"
    by linarith
  then show ?thesis
  proof cases
    case cols
    note c = calculateLayout_by_cols [OF cols, of n]
    note r = ceil_rows [OF n cols hints(1)]
    have C: "lay_Cols ?L = cfg_Cols cfg" by (rule c(1))
    have R: "lay_Rows ?L = \<lceil>real_of_int n / real_of_int (lay_Cols ?L)\<rceil>"
      by (simp only: c r(1))
    have n1: "\<not> cfg_Cols cfg \<le> 0" using cols by simp
    have C0: "0 < lay_Cols ?L" and C53: "lay_Cols ?L < 2 ^ 63" using cols hints(1) by (simp_all only: C)
    have R0: "0 < lay_Rows ?L" using r(2) by (simp only: R C)
    have R53: "lay_Rows ?L < 2 ^ 63" using r(3) n53 unfolding R C by linarith
    have room: "n \<le> lay_Cols ?L * lay_Rows ?L" using r(4) by (simp only: R C)
    from C R n1 C0 C53 R0 R53 room show ?thesis by blast
  next
    case rows
    note c = calculateLayout_by_rows [OF rows, of n]
    note r = ceil_rows [OF n rows(2) hints(2)]
    have R: "lay_Rows ?L = cfg_Rows cfg" by (rule c(1))
    have C: "lay_Cols ?L = \<lceil>real_of_int n / real_of_int (lay_Rows ?L)\<rceil>"
      by (simp only: c r(1))
    have n1: "\<not> 0 < cfg_Cols cfg" using rows(1) by simp
    have n2: "\<not> cfg_Rows cfg \<le> 0" using rows(2) by simp
    have R0: "0 < lay_Rows ?L" and R53: "lay_Rows ?L < 2 ^ 63" using rows(2) hints(2) by (simp_all only: R)
    have C0: "0 < lay_Cols ?L" using r(2) by (simp only: C R)
    have C53: "lay_Cols ?L < 2 ^ 63" using r(3) n53 unfolding C R by linarith
    have "n \<le> lay_Rows ?L * lay_Cols ?L" using r(4) by (simp only: C R)
    then have room: "n \<le> lay_Cols ?L * lay_Rows ?L" by (simp only: mult.commute)
    from C R n1 n2 C0 C53 R0 R53 room show ?thesis by blast
  next
    case square
    note c = calculateLayout_square [OF square, of n]
    from Sqrt_ceil [OF n] obtain k where
      k: "int_of_float64 (Ceil (Sqrt (float64_of_int n))) = k"
      and k0: "0 < k" and k25: "k \<le> 2 ^ 25"
      and lo: "(k - 1) * (k - 1) < n" and hi: "n \<le> k * k"
      by blast
    have k53: "k < 2 ^ 63" using k25 by simp
    note r = ceil_rows [OF n k0 k53]
    have Ck: "lay_Cols ?L = k" by (simp only: c(1) k)
    have sq: "\<lceil>sqrt (real_of_int n)\<rceil> = k" by (rule ceiling_sqrt_eq [OF k0 lo hi])
    have C: "lay_Cols ?L = \<lceil>sqrt (real_of_int n)\<rceil>" by (simp only: Ck sq)
    have R: "lay_Rows ?L = \<lceil>real_of_int n / real_of_int (lay_Cols ?L)\<rceil>"
      by (simp only: c(2) k r(1) Ck)
    have n1: "\<not> 0 < cfg_Cols cfg" using square(1) by simp
    have n2: "\<not> 0 < cfg_Rows cfg" using square(2) by simp
    have C0: "0 < lay_Cols ?L" and C53: "lay_Cols ?L < 2 ^ 63" using k0 k53 by (simp_all only: Ck)
    have R0: "0 < lay_Rows ?L" using r(2) by (simp only: R Ck)
    have R53: "lay_Rows ?L < 2 ^ 63" using r(3) n53 unfolding R Ck by linarith
    have room: "n \<le> lay_Cols ?L * lay_Rows ?L" using r(4) by (simp only: R Ck)
    from C R n1 n2 C0 C53 R0 R53 room show ?thesis by blast
  qed
qed

lemma layout_3cols_7:
  "lay_Cols (calculateLayout cfg_3cols 7) = 3 \<and> lay_Rows (calculateLayout cfg_3cols 7) = 3"
proof -
  have h: "0 < (7::int)" "(7::int) \<le> 2 ^ 50"
    "cfg_Cols cfg_3cols < 2 ^ 63" "cfg_Rows cfg_3cols < 2 ^ 63"
    by (simp_all add: cfg_3cols_def)
  note g = calculateLayout_grid_core [OF h]
  have pos: "0 < cfg_Cols cfg_3cols" by (simp add: cfg_3cols_def)
  from g pos have c: "lay_Cols (calculateLayout cfg_3cols 7) = 3"
    by (simp add: cfg_3cols_def)
  from g pos have r: "lay_Rows (calculateLayout cfg_3cols 7) = 3"
    by (simp add: c cfg_3cols_def)
  from c r show ?thesis by simp
qed

lemma canvas_3cols_7:
  "lay_Width (calculateLayout cfg_3cols 7) = 192 \<and> lay_Height (calculateLayout cfg_3cols 7) = 192"
  using layout_3cols_7
  by (simp add: calculateLayout_fields(4,5) cfg_3cols_def go_add_def go_mul_def go_sub_def
      wrap64_def)

text \<open>
  C3.  For a positive tile count (up to \<open>2 ^ 50\<close>: beyond \<open>2 ^ 53\<close> the conversion of
  the count to \<open>float64\<close> rounds) \<open>calculateLayout\<close> takes the columns
  from the hint and the rows as the rounded-up quotient when the column hint is
  positive; the rows from the hint and the columns as the rounded-up quotient when
  only the row hint is positive; and the rounded-up square root as columns, with the
  rounded-up quotient as rows, when neither is.  The canvas is
  \<open>columns * tileWidth + (columns - 1) * padding\<close> wide and
  \<open>rows * tileHeight + (rows - 1) * padding\<close> high, where these values are representable
  as a Go \<open>int\<close>.
\<close>

theorem calculateLayout_grid:
  assumes "0 < imageCount" "imageCount \<le> 2 ^ 50"
    and "cfg_Cols cfg < 2 ^ 63" "cfg_Rows cfg < 2 ^ 63"
    and "0 < cfg_TileWidth cfg" "0 < cfg_TileHeight cfg" "0 \<le> cfg_Padding cfg"
  shows "(0 < cfg_Cols cfg \<longrightarrow>
            lay_Cols (calculateLayout cfg imageCount) = cfg_Cols cfg
          \<and> lay_Rows (calculateLayout cfg imageCount)
              = \<lceil>real_of_int imageCount / real_of_int (lay_Cols (calculateLayout cfg imageCount))\<rceil>)
       \<and> (cfg_Cols cfg \<le> 0 \<and> 0 < cfg_Rows cfg \<longrightarrow>
            lay_Rows (calculateLayout cfg imageCount) = cfg_Rows cfg
          \<and> lay_Cols (calculateLayout cfg imageCount)
              = \<lceil>real_of_int imageCount / real_of_int (lay_Rows (calculateLayout cfg imageCount))\<rceil>)
       \<and> (cfg_Cols cfg \<le> 0 \<and> cfg_Rows cfg \<le> 0 \<longrightarrow>
            lay_Cols (calculateLayout cfg imageCount) = \<lceil>sqrt (real_of_int imageCount)\<rceil>
          \<and> lay_Rows (calculateLayout cfg imageCount)
              = \<lceil>real_of_int imageCount / real_of_int (lay_Cols (calculateLayout cfg imageCount))\<rceil>)
       \<and> (in64 (lay_Cols (calculateLayout cfg imageCount) * cfg_TileWidth cfg
                + (lay_Cols (calculateLayout cfg imageCount) - 1) * cfg_Padding cfg) \<longrightarrow>
            lay_Width (calculateLayout cfg imageCount)
              = lay_Cols (calculateLayout cfg imageCount) * cfg_TileWidth cfg
                + (lay_Cols (calculateLayout cfg imageCount) - 1) * cfg_Padding cfg)
       \<and> (in64 (lay_Rows (calculateLayout cfg imageCount) * cfg_TileHeight cfg
                + (lay_Rows (calculateLayout cfg imageCount) - 1) * cfg_Padding cfg) \<longrightarrow>
            lay_Height (calculateLayout cfg imageCount)
              = lay_Rows (calculateLayout cfg imageCount) * cfg_TileHeight cfg
                + (lay_Rows (calculateLayout cfg imageCount) - 1) * cfg_Padding cfg)
       \<and> lay_TileWidth (calculateLayout cfg imageCount) = cfg_TileWidth cfg
       \<and> lay_TileHeight (calculateLayout cfg imageCount) = cfg_TileHeight cfg
       \<and> lay_Padding (calculateLayout cfg imageCount) = cfg_Padding cfg"
proof -
  let ?L = "calculateLayout cfg imageCount"
  note core = calculateLayout_grid_core [OF assms(1-4)]
  from core have c0: "0 < lay_Cols ?L" and c63: "lay_Cols ?L < 2 ^ 63"
    and r0: "0 < lay_Rows ?L" and r63: "lay_Rows ?L < 2 ^ 63"
    by blast+
  have w: "lay_Width ?L = lay_Cols ?L * cfg_TileWidth cfg + (lay_Cols ?L - 1) * cfg_Padding cfg"
    if "in64 (lay_Cols ?L * cfg_TileWidth cfg + (lay_Cols ?L - 1) * cfg_Padding cfg)"
    using canvas_exact [OF c0 c63 assms(5,7) that] by (simp only: calculateLayout_fields)
  have h: "lay_Height ?L = lay_Rows ?L * cfg_TileHeight cfg + (lay_Rows ?L - 1) * cfg_Padding cfg"
    if "in64 (lay_Rows ?L * cfg_TileHeight cfg + (lay_Rows ?L - 1) * cfg_Padding cfg)"
    using canvas_exact [OF r0 r63 assms(6,7) that] by (simp only: calculateLayout_fields)
  from core w h show ?thesis
    by (simp only: calculateLayout_fields(1,2,3)) blast
qed

theorem calculateLayout_grid_witness:
  "lay_Cols (calculateLayout cfg_3cols 7) = 3
   \<and> lay_Rows (calculateLayout cfg_3cols 7) = 3
   \<and> lay_Width (calculateLayout cfg_3cols 7) = 192
   \<and> lay_Height (calculateLayout cfg_3cols 7) = 192"
proof -
  have h: "0 < (7::int)" "(7::int) \<le> 2 ^ 50"
    "cfg_Cols cfg_3cols < 2 ^ 63" "cfg_Rows cfg_3cols < 2 ^ 63"
    "0 < cfg_TileWidth cfg_3cols" "0 < cfg_TileHeight cfg_3cols" "0 \<le> cfg_Padding cfg_3cols"
    by (simp_all add: cfg_3cols_def)
  note g = calculateLayout_grid [OF h]
  have pos: "0 < cfg_Cols cfg_3cols" by (simp add: cfg_3cols_def)
  from g pos have c: "lay_Cols (calculateLayout cfg_3cols 7) = 3"
    by (simp add: cfg_3cols_def)
  from g pos have r: "lay_Rows (calculateLayout cfg_3cols 7) = 3"
    by (simp add: c cfg_3cols_def)
  from g have "lay_Width (calculateLayout cfg_3cols 7) = 192"
    and "lay_Height (calculateLayout cfg_3cols 7) = 192"
    by (simp_all add: c r cfg_3cols_def in64_def)
  with c r show ?thesis by simp
qed

text \<open>
  C10.  The grid that \<open>calculateLayout\<close> returns has room for every tile, and
  \<open>createSpritesheet\<close>, when the canvas of that layout can be allocated, places every
  tile in a cell of the grid and inside the canvas.
\<close>

theorem calculateLayout_holds_sprites:
  assumes "images \<noteq> []" "int (length images) \<le> 2 ^ 50"
    and "cfg_Cols cfg < 2 ^ 63" "cfg_Rows cfg < 2 ^ 63"
    and "0 < cfg_TileWidth cfg" "0 < cfg_TileHeight cfg" "0 \<le> cfg_Padding cfg"
    and "in64 (lay_Cols (calculateLayout cfg (int (length images))) * cfg_TileWidth cfg
              + (lay_Cols (calculateLayout cfg (int (length images))) - 1) * cfg_Padding cfg)"
    and "in64 (lay_Rows (calculateLayout cfg (int (length images))) * cfg_TileHeight cfg
              + (lay_Rows (calculateLayout cfg (int (length images))) - 1) * cfg_Padding cfg)"
    and "\<not> isl (NewRGBA alloc
                  (Rect 0 0 (lay_Width (calculateLayout cfg (int (length images))))
                            (lay_Height (calculateLayout cfg (int (length images))))))"
  shows "int (length images) \<le> lay_Cols (calculateLayout cfg (int (length images)))
                              * lay_Rows (calculateLayout cfg (int (length images)))
       \<and> (\<exists>sheet meta.
            createSpritesheet alloc over images (calculateLayout cfg (int (length images)))
              = Inr (sheet, meta)
          \<and> length (meta_Sprites meta) = length images
          \<and> (\<forall>i < length images.
               int i mod lay_Cols (calculateLayout cfg (int (length images)))
                 < lay_Cols (calculateLayout cfg (int (length images)))
             \<and> int i div lay_Cols (calculateLayout cfg (int (length images)))
                 < lay_Rows (calculateLayout cfg (int (length images)))
             \<and> 0 \<le> spr_X (meta_Sprites meta ! i)
             \<and> 0 \<le> spr_Y (meta_Sprites meta ! i)
             \<and> spr_X (meta_Sprites meta ! i) + spr_Width (meta_Sprites meta ! i)
                 \<le> lay_Width (calculateLayout cfg (int (length images)))
             \<and> spr_Y (meta_Sprites meta ! i) + spr_Height (meta_Sprites meta ! i)
                 \<le> lay_Height (calculateLayout cfg (int (length images)))))"
proof -
  let ?n = "int (length images)"
  let ?L = "calculateLayout cfg ?n"
  let ?c = "lay_Cols ?L" and ?r = "lay_Rows ?L"
  let ?t = "cfg_TileWidth cfg" and ?u = "cfg_TileHeight cfg" and ?p = "cfg_Padding cfg"
  have n0: "0 < ?n" using assms(1) by simp
  note core = calculateLayout_grid_core [OF n0 assms(2-4)]
  from core have c0: "0 < ?c" and c63: "?c < 2 ^ 63" and r0: "0 < ?r" and r63: "?r < 2 ^ 63"
    and room: "?n \<le> ?c * ?r"
    by blast+
  have W: "lay_Width ?L = ?c * ?t + (?c - 1) * ?p"
    using canvas_exact [OF c0 c63 assms(5,7,8)] by (simp only: calculateLayout_fields)
  have H: "lay_Height ?L = ?r * ?u + (?r - 1) * ?p"
    using canvas_exact [OF r0 r63 assms(6,7,9)] by (simp only: calculateLayout_fields)
  have nz: "?c \<noteq> 0" using c0 by simp
  from assms(10) obtain canvas where
    canvas: "NewRGBA alloc (Rect 0 0 (lay_Width ?L) (lay_Height ?L)) = Inr canvas"
    by (cases "NewRGBA alloc (Rect 0 0 (lay_Width ?L) (lay_Height ?L))") simp_all
  from createSpritesheet_nth [OF nz canvas, of over images]
  obtain sheet meta where
    res: "createSpritesheet alloc over images ?L = Inr (sheet, meta)"
    and len: "length (meta_Sprites meta) = length images"
    and nth: "\<forall>i < length images. meta_Sprites meta ! i =
                 \<lparr>spr_Name = info_Filename (images ! i),
                  spr_X = go_mul (go_rem (int i) ?c) (go_add (lay_TileWidth ?L) (lay_Padding ?L)),
                  spr_Y = go_mul (go_quo (int i) ?c) (go_add (lay_TileHeight ?L) (lay_Padding ?L)),
                  spr_Width = lay_TileWidth ?L,
                  spr_Height = lay_TileHeight ?L,
                  spr_Index = int i\<rparr>"
    by blast
  have "int i mod ?c < ?c \<and> int i div ?c < ?r
      \<and> 0 \<le> spr_X (meta_Sprites meta ! i) \<and> 0 \<le> spr_Y (meta_Sprites meta ! i)
      \<and> spr_X (meta_Sprites meta ! i) + spr_Width (meta_Sprites meta ! i) \<le> lay_Width ?L
      \<and> spr_Y (meta_Sprites meta ! i) + spr_Height (meta_Sprites meta ! i) \<le> lay_Height ?L"
    if i: "i < length images" for i
  proof -
    have i63: "int i < 2 ^ 63" using i assms(2) by simp
    have rem: "go_rem (int i) ?c = int i mod ?c" using c0 by (simp add: go_rem_nonneg)
    have quo: "go_quo (int i) ?c = int i div ?c" using c0 i63 by (simp add: go_quo_nonneg)
    have col0: "0 \<le> int i mod ?c" and col1: "int i mod ?c < ?c" using c0 by simp_all
    have row0: "0 \<le> int i div ?c" using c0 by (simp add: pos_imp_zdiv_nonneg_iff)
    have ir: "int i < ?c * ?r" using i room by simp
    have row1: "int i div ?c < ?r"
    proof (rule ccontr)
      assume "\<not> int i div ?c < ?r"
      then have "?r \<le> int i div ?c" by simp
      then have "?c * ?r \<le> ?c * (int i div ?c)" using c0 by (intro mult_left_mono) simp_all
      also have "\<dots> \<le> int i"
        using mult_div_mod_eq [of ?c "int i"] pos_mod_sign [OF c0, of "int i"] by linarith
      finally show False using ir by simp
    qed
    note x = cell_origin [OF col0 col1 assms(5,7,8)]
    note y = cell_origin [OF row0 row1 assms(6,7,9)]
    from nth i have s: "meta_Sprites meta ! i =
                 \<lparr>spr_Name = info_Filename (images ! i),
                  spr_X = (int i mod ?c) * (?t + ?p),
                  spr_Y = (int i div ?c) * (?u + ?p),
                  spr_Width = ?t, spr_Height = ?u, spr_Index = int i\<rparr>"
      by (simp add: rem quo calculateLayout_fields(1,2,3) x(1) y(1))
    show ?thesis
      using col1 row1 x(2,3) y(2,3) by (simp add: s W H)
  qed
  with res len room show ?thesis by blast
qed

theorem calculateLayout_holds_sprites_witness:
  "7 \<le> lay_Cols (calculateLayout cfg_3cols 7) * lay_Rows (calculateLayout cfg_3cols 7)
   \<and> (\<exists>sheet meta.
        createSpritesheet alloc_4G (\<lambda>s d. s)
          (map tile64 [''a'', ''b'', ''c'', ''d'', ''e'', ''f'', ''g''])
          (calculateLayout cfg_3cols 7) = Inr (sheet, meta)
      \<and> spr_X (meta_Sprites meta ! 6) + spr_Width (meta_Sprites meta ! 6)
          \<le> lay_Width (calculateLayout cfg_3cols 7)
      \<and> spr_Y (meta_Sprites meta ! 6) + spr_Height (meta_Sprites meta ! 6)
          \<le> lay_Height (calculateLayout cfg_3cols 7))"
proof -
  let ?images = "map tile64 [''a'', ''b'', ''c'', ''d'', ''e'', ''f'', ''g'']"
  have len: "int (length ?images) = 7" by simp
  have h: "?images \<noteq> []" "int (length ?images) \<le> 2 ^ 50"
    "cfg_Cols cfg_3cols < 2 ^ 63" "cfg_Rows cfg_3cols < 2 ^ 63"
    "0 < cfg_TileWidth cfg_3cols" "0 < cfg_TileHeight cfg_3cols" "0 \<le> cfg_Padding cfg_3cols"
    by (simp_all add: cfg_3cols_def)
  have w: "in64 (lay_Cols (calculateLayout cfg_3cols (int (length ?images))) * cfg_TileWidth cfg_3cols
              + (lay_Cols (calculateLayout cfg_3cols (int (length ?images))) - 1) * cfg_Padding cfg_3cols)"
    using layout_3cols_7 by (simp only: len) (simp add: cfg_3cols_def in64_def)
  have v: "in64 (lay_Rows (calculateLayout cfg_3cols (int (length ?images))) * cfg_TileHeight cfg_3cols
              + (lay_Rows (calculateLayout cfg_3cols (int (length ?images))) - 1) * cfg_Padding cfg_3cols)"
    using layout_3cols_7 by (simp only: len) (simp add: cfg_3cols_def in64_def)
  have d: "Dx (Rect 0 0 192 192) = 192" "Dy (Rect 0 0 192 192) = 192"
    by (simp_all add: Dx_def Dy_def Rect_def go_sub_def wrap64_id in64_def)
  have "NewRGBA alloc_4G (Rect 0 0 192 192) = Inr (blank (Rect 0 0 192 192))"
    by (rule NewRGBA_ok) (simp_all add: d alloc_4G_def)
  then have a: "\<not> isl (NewRGBA alloc_4G
                  (Rect 0 0 (lay_Width (calculateLayout cfg_3cols (int (length ?images))))
                            (lay_Height (calculateLayout cfg_3cols (int (length ?images))))))"
    using canvas_3cols_7 by (simp only: len) simp
  from calculateLayout_holds_sprites [OF h w v a, of "\<lambda>s d. s"]
  show ?thesis by (simp only: len) (auto simp del: map_eq_conv)
qed

section \<open>The rounding error of a floating point operation\<close>

lemma round_even_near: "\<bar>of_int (round_even y) - y\<bar> \<le> 1"
proof -
  have "of_int \<lfloor>y\<rfloor> \<le> y" "y < of_int \<lfloor>y\<rfloor> + 1" by linarith+
  with round_even_cases [of y] show ?thesis by auto
qed

lemma fl_rel:
  assumes x: "1 / 2 ^ 60 \<le> x" "x < 2 ^ 1000"
  shows "\<exists>r. fl x = Some r \<and> \<bar>r - x\<bar> \<le> x / 2 ^ 52"
proof -
  have x0: "0 < x" using x(1) by (rule less_le_trans [rotated]) simp
  define e where "e = ilog2 x"
  have lo: "2 powi e \<le> x" unfolding e_def by (rule ilog2_lower [OF x0])
  have hi: "x < 2 powi (e + 1)" unfolding e_def by (rule ilog2_upper [OF x0])
  have "(2::rat) powi (- 60) = 1 / 2 ^ 60" by (simp add: power_int_minus_divide)
  with x(1) hi have "(2::rat) powi (- 60) < 2 powi (e + 1)" by simp
  then have "- 60 < e + 1" by (rule pow2_less_exp)
  then have em: "max e (- 1022) = e" by simp
  define u where "u = (2::rat) powi (e - 52)"
  have u0: "0 < u" by (simp add: u_def)
  have "(2::rat) powi (e - 52) = 2 powi (e + (- 52))" by simp
  also have "\<dots> = 2 powi e * 2 powi (- 52)" by (simp only: pow2_split)
  also have "(2::rat) powi (- 52) = 1 / 2 ^ 52" by (simp add: power_int_minus_divide)
  finally have ue: "u = 2 powi e / 2 ^ 52" by (simp add: u_def)
  have ux: "u \<le> x / 2 ^ 52" unfolding ue using lo by (simp add: divide_right_mono)
  define R where "R = round_even (x / u)"
  define r where "r = of_int R * u"
  have "\<bar>of_int R - x / u\<bar> \<le> 1" unfolding R_def by (rule round_even_near)
  then have "\<bar>of_int R - x / u\<bar> * u \<le> 1 * u" using u0 by (intro mult_right_mono) simp_all
  moreover have "\<bar>of_int R - x / u\<bar> * u = \<bar>r - x\<bar>"
  proof -
    have "\<bar>of_int R - x / u\<bar> * u = \<bar>(of_int R - x / u) * u\<bar>" using u0 by (simp add: abs_mult)
    also have "(of_int R - x / u) * u = r - x" using u0 by (simp add: r_def field_simps)
    finally show ?thesis .
  qed
  ultimately have ru: "\<bar>r - x\<bar> \<le> u" by simp
  with ux have rx: "\<bar>r - x\<bar> \<le> x / 2 ^ 52" by linarith
  have "x / 2 ^ 52 \<le> x" using x0 by (simp add: field_simps)
  with rx have "r \<le> 2 * x" by linarith
  also have "\<dots> < 2 * 2 ^ 1000" using x(2) by simp
  also have "\<dots> \<le> (2::rat) ^ 1024" by simp
  finally have big: "\<not> 2 ^ 1024 \<le> r" by simp
  have xn: "x \<noteq> 0" "\<bar>x\<bar> = x" "sgn x = 1" using x0 by simp_all
  have "fl x = Some r"
    unfolding fl_def Let_def xn e_def [symmetric] em u_def [symmetric] R_def [symmetric]
      r_def [symmetric]
    using big xn(1) by simp
  with rx show ?thesis by blast
qed


lemma fl_exact_int:
  assumes "0 < m" "m < 2 ^ 53"
  shows "fl (of_int m) = Some (of_int m)"
proof -
  have "(of_int m :: rat) < 2 ^ 53" using assms(2) by simp
  also have "(2 ^ 53 :: rat) < 2 ^ 1023" by simp
  finally have "of_int m * (2::rat) powi 0 < 2 ^ 1023" by simp
  from fl_exact [OF assms _ this] show ?thesis by simp
qed

lemma int_of_float64_floor:
  assumes "0 \<le> p" "p < 2 ^ 63"
  shows "int_of_float64 (Some p) = \<lfloor>p\<rfloor>"
proof -
  have "0 \<le> \<lfloor>p\<rfloor>" using assms(1) by simp
  moreover have "\<lfloor>p\<rfloor> < 2 ^ 63" using assms(2) by (simp add: floor_less_iff)
  ultimately have "in64 \<lfloor>p\<rfloor>" by (simp add: in64_def)
  then show ?thesis using assms(1) by (simp add: int_of_float64_def)
qed

text \<open>
  The coordinate that \<open>ResizeImage\<close> samples lies in the source and differs by at most
  one from the rounded-down exact position \<open>x * srcSize / dstSize\<close>.
\<close>

lemma nearest_bounds:
  assumes s: "0 < s" "s < 2 ^ 48" and d: "0 < d" "d < 2 ^ 48" and x: "0 \<le> x" "x < d"
  shows "0 \<le> nearest s d x \<and> nearest s d x < s \<and> \<bar>nearest s d x - (x * s) div d\<bar> \<le> 1"
proof -
  define q :: rat where "q = of_int s / of_int d"
  have s53: "s < 2 ^ 53" and d53: "d < 2 ^ 53" and x53: "x < 2 ^ 53"
    using s(2) d(2) x(2) by simp_all
  have fs: "float64_of_int s = Some (of_int s)" using s(1) s53 by (simp add: float64_of_int_exact)
  have fd: "float64_of_int d = Some (of_int d)" using d(1) d53 by (simp add: float64_of_int_exact)
  have fx: "float64_of_int x = Some (of_int x)" using x(1) x53 by (simp add: float64_of_int_exact)
  have sr: "(1::rat) \<le> of_int s" "(of_int s :: rat) < 2 ^ 48" using s by simp_all
  have dr: "(1::rat) \<le> of_int d" "(of_int d :: rat) < 2 ^ 48" using d by simp_all
  have q_lo: "1 / 2 ^ 48 \<le> q"
  proof -
    have "1 / 2 ^ 48 \<le> 1 / (of_int d :: rat)" using dr by (intro divide_left_mono) simp_all
    also have "\<dots> \<le> of_int s / of_int d" using sr dr by (intro divide_right_mono) simp_all
    finally show ?thesis by (simp add: q_def)
  qed
  have q_hi: "q \<le> of_int s"
  proof -
    have "of_int s / of_int d \<le> of_int s / (1::rat)" using sr dr by (intro divide_left_mono) simp_all
    then show ?thesis by (simp add: q_def)
  qed
  have q0: "0 < q" using q_lo by (rule less_le_trans [rotated]) simp
  have "(1::rat) / 2 ^ 60 \<le> 1 / 2 ^ 48" by simp
  with q_lo have q60: "1 / 2 ^ 60 \<le> q" by linarith
  have "q < 2 ^ 48" using q_hi sr by linarith
  also have "(2::rat) ^ 48 < 2 ^ 1000" by simp
  finally have q1000: "q < 2 ^ 1000" .
  from fl_rel [OF q60 q1000] obtain r1 where r1: "fl q = Some r1" and e1: "\<bar>r1 - q\<bar> \<le> q / 2 ^ 52"
    by blast
  have dn: "(of_int d :: rat) \<noteq> 0" using d(1) by simp
  have scale: "fdiv (float64_of_int s) (float64_of_int d) = Some r1"
    using dn by (simp add: fs fd fdiv_def q_def [symmetric] r1)
  define E :: rat where "E = of_int x * q"
  have E_eq: "E = of_int (x * s) / of_int d" by (simp add: E_def q_def)
  have F: "\<lfloor>E\<rfloor> = (x * s) div d" unfolding E_eq by (rule floor_divide_of_int_eq)
  have E0: "0 \<le> E" using x(1) q0 by (simp add: E_def)
  have Es: "E < of_int s"
  proof -
    have "x * s < d * s" using x(2) s(1) by (intro mult_strict_right_mono)
    then have "(of_int (x * s) :: rat) < of_int (d * s)" by (simp only: of_int_less_iff)
    then have "of_int (x * s) / of_int d < (of_int (d * s) :: rat) / of_int d"
      using d(1) by (intro divide_strict_right_mono) simp_all
    then show ?thesis using dn by (simp add: E_eq)
  qed
  have Fs: "(x * s) div d < s"
  proof -
    have "\<lfloor>E\<rfloor> < s" using Es by (simp add: floor_less_iff)
    then show ?thesis by (simp only: F)
  qed
  have F0: "0 \<le> (x * s) div d" using x(1) s(1) d(1) by (simp add: pos_imp_zdiv_nonneg_iff)
  have sub: "go_sub s 1 = s - 1" using s by (simp add: go_sub_def wrap64_id in64_def)
  show ?thesis
  proof (cases "x = 0")
    case True
    have "fmul (float64_of_int x) (Some r1) = Some 0"
      using fx by (simp add: True fmul_def fl_def)
    then have "nearest s d x = 0"
      using s(1) by (simp add: nearest_def Let_def scale int_of_float64_def in64_def)
    then show ?thesis using s(1) True by simp
  next
    case False
    with x(1) have x1: "(1::rat) \<le> of_int x" by simp
    have xr: "(of_int x :: rat) < 2 ^ 48" using x(2) d(2) by simp
    define z where "z = of_int x * r1"
    have q52: "q / 2 ^ 52 \<le> q / 2" using q0 by (simp add: field_simps)
    from e1 q52 have r1_lo: "q / 2 \<le> r1" and r1_hi: "r1 \<le> 2 * q" using q0 by linarith+
    have r10: "0 < r1" using r1_lo q0 by linarith
    have "1 / 2 ^ 60 \<le> (1 / 2 ^ 48) / (2::rat)" by simp
    also have "\<dots> \<le> q / 2" using q_lo by simp
    also have "\<dots> \<le> r1" by (rule r1_lo)
    also have "r1 \<le> z" using x1 r10 by (simp add: z_def)
    finally have z60: "1 / 2 ^ 60 \<le> z" .
    have zE: "\<bar>z - E\<bar> \<le> E / 2 ^ 52"
    proof -
      have "\<bar>z - E\<bar> = of_int x * \<bar>r1 - q\<bar>"
        using x(1) by (simp add: z_def E_def abs_mult right_diff_distrib [symmetric])
      also have "\<dots> \<le> of_int x * (q / 2 ^ 52)" using e1 x(1) by (intro mult_left_mono) simp_all
      finally show ?thesis by (simp add: E_def)
    qed
    have E48: "E < 2 ^ 48" using Es sr by linarith
    have E52: "E / 2 ^ 52 \<le> 1 / 16"
    proof -
      have "E / 2 ^ 52 \<le> 2 ^ 48 / (2::rat) ^ 52" using E48 by (intro divide_right_mono) simp_all
      then show ?thesis by simp
    qed
    from zE E52 E0 have z_hi: "z \<le> E + 1 / 16" and z_lo: "E - 1 / 16 \<le> z" by linarith+
    have "z < 2 ^ 48 + 1" using z_hi E48 by linarith
    also have "\<dots> < (2::rat) ^ 1000" by simp
    finally have z1000: "z < 2 ^ 1000" .
    from fl_rel [OF z60 z1000] obtain p where p: "fl z = Some p" and e2: "\<bar>p - z\<bar> \<le> z / 2 ^ 52"
      by blast
    have z0: "0 < z" using z60 by (rule less_le_trans [rotated]) simp
    have z52: "z / 2 ^ 52 \<le> 1 / 8"
    proof -
      have "z / 2 ^ 52 \<le> (2 ^ 48 + 1) / (2::rat) ^ 52"
        using z_hi E48 by (intro divide_right_mono) simp_all
      also have "\<dots> \<le> 1 / 8" by simp
      finally show ?thesis .
    qed
    have "z / 2 ^ 52 \<le> z" using z0 by (simp add: field_simps)
    with e2 have p0: "0 \<le> p" by linarith
    from e2 z52 z_hi z_lo have p_hi: "p \<le> E + 1 / 4" and p_lo: "E - 1 / 4 \<le> p" by linarith+
    have "p < 2 ^ 48 + 1" using p_hi E48 by linarith
    also have "\<dots> < (2::rat) ^ 63" by simp
    finally have p63: "p < 2 ^ 63" .
    have mul: "fmul (float64_of_int x) (Some r1) = Some p" by (simp add: fx fmul_def z_def [symmetric] p)
    have src: "int_of_float64 (fmul (float64_of_int x) (Some r1)) = \<lfloor>p\<rfloor>"
      by (simp only: mul int_of_float64_floor [OF p0 p63])
    have n: "nearest s d x = (if s \<le> \<lfloor>p\<rfloor> then s - 1 else \<lfloor>p\<rfloor>)"
      by (simp only: nearest_def Let_def scale src sub)
    have fl0: "0 \<le> \<lfloor>p\<rfloor>" using p0 by simp
    have "of_int \<lfloor>E\<rfloor> \<le> E" "E < of_int \<lfloor>E\<rfloor> + 1" by linarith+
    then have EF: "of_int ((x * s) div d) \<le> E" "E < of_int ((x * s) div d) + 1"
      by (simp_all only: F)
    have up: "\<lfloor>p\<rfloor> \<le> (x * s) div d + 1"
    proof -
      have "p < of_int ((x * s) div d + 1) + 1" using p_hi EF(2) by simp
      then have "\<lfloor>p\<rfloor> < (x * s) div d + 1 + 1" by (simp add: floor_less_iff)
      then show ?thesis by simp
    qed
    have down: "(x * s) div d - 1 \<le> \<lfloor>p\<rfloor>"
    proof -
      have "of_int ((x * s) div d - 1) \<le> p" using p_lo EF(1) by simp
      then show ?thesis by (simp add: le_floor_iff)
    qed
    show ?thesis
    proof (cases "s \<le> \<lfloor>p\<rfloor>")
      case True
      with n have "nearest s d x = s - 1" by simp
      moreover from True up Fs have "(x * s) div d = s - 1" by linarith
      ultimately show ?thesis using s(1) by simp
    next
      case False
      with n have "nearest s d x = \<lfloor>p\<rfloor>" by simp
      with False fl0 up down show ?thesis by simp
    qed
  qed
qed

section \<open>Tile loading\<close>

lemma Dx_Rect0: "0 \<le> w \<Longrightarrow> w < 2 ^ 63 \<Longrightarrow> Dx (Rect 0 0 w h) = w"
  by (simp add: Dx_def Rect_def go_sub_def wrap64_id in64_def)

lemma Dy_Rect0: "0 \<le> h \<Longrightarrow> h < 2 ^ 63 \<Longrightarrow> Dy (Rect 0 0 w h) = h"
  by (simp add: Dy_def Rect_def go_sub_def wrap64_id in64_def)

lemma ResizeImage_same:
  "Dx (Bounds img) = w \<and> Dy (Bounds img) = h \<Longrightarrow> ResizeImage alloc img w h = Inr img"
  by (simp add: ResizeImage_def)

lemma ResizeImage_panic:
  assumes "\<not> (Dx (Bounds img) = w \<and> Dy (Bounds img) = h)"
    and "NewRGBA alloc (Rect 0 0 w h) = Inl p"
  shows "ResizeImage alloc img w h = Inl p"
  using assms by (simp add: ResizeImage_def Let_def)

lemma ResizeImage_resized:
  assumes "\<not> (Dx (Bounds img) = w \<and> Dy (Bounds img) = h)"
    and "NewRGBA alloc (Rect 0 0 w h) = Inr canvas"
  shows "\<exists>t. ResizeImage alloc img w h = Inr t
           \<and> Bounds t = Rect 0 0 w h
           \<and> (\<forall>x y. 0 \<le> x \<and> x < w \<and> 0 \<le> y \<and> y < h \<longrightarrow>
                 At t x y =
                   to_rgba (At img (go_add (Min_X (Bounds img)) (nearest (Dx (Bounds img)) w x))
                                   (go_add (Min_Y (Bounds img)) (nearest (Dy (Bounds img)) h y))))"
proof -
  have ne: "(Dx (Bounds img) = w \<and> Dy (Bounds img) = h) = False" using assms(1) by simp
  from assms(2) NewRGBA_Inr [OF assms(2)]
  have a: "NewRGBA alloc (Rect 0 0 w h) = Inr (blank (Rect 0 0 w h))" by simp
  let ?t = "(blank (Rect 0 0 w h))\<lparr>At := (\<lambda>x y.
              if 0 \<le> x \<and> x < w \<and> 0 \<le> y \<and> y < h then
                to_rgba (At img (go_add (Min_X (Bounds img)) (nearest (Dx (Bounds img)) w x))
                                (go_add (Min_Y (Bounds img)) (nearest (Dy (Bounds img)) h y)))
              else transparent)\<rparr>"
  have "ResizeImage alloc img w h = Inr ?t"
    by (simp only: ResizeImage_def Let_def ne if_False a sum.case nearest_def)
  moreover have "Bounds ?t = Rect 0 0 w h" by (simp add: blank_def)
  moreover have "\<forall>x y. 0 \<le> x \<and> x < w \<and> 0 \<le> y \<and> y < h \<longrightarrow>
                 At ?t x y =
                   to_rgba (At img (go_add (Min_X (Bounds img)) (nearest (Dx (Bounds img)) w x))
                                   (go_add (Min_Y (Bounds img)) (nearest (Dy (Bounds img)) h y)))"
    by simp
  ultimately show ?thesis by blast
qed

lemma ResizeImage_cases:
  assumes "\<not> (Dx (Bounds img) = w \<and> Dy (Bounds img) = h)"
  shows "(isl (ResizeImage alloc img w h) \<longleftrightarrow> isl (NewRGBA alloc (Rect 0 0 w h)))
       \<and> (\<forall>t. ResizeImage alloc img w h = Inr t \<longrightarrow>
             Bounds t = Rect 0 0 w h
           \<and> (\<forall>x y. 0 \<le> x \<and> x < w \<and> 0 \<le> y \<and> y < h \<longrightarrow>
                 At t x y =
                   to_rgba (At img (go_add (Min_X (Bounds img)) (nearest (Dx (Bounds img)) w x))
                                   (go_add (Min_Y (Bounds img)) (nearest (Dy (Bounds img)) h y)))))"
proof (cases "NewRGBA alloc (Rect 0 0 w h)")
  case (Inl p)
  from ResizeImage_panic [OF assms Inl] Inl show ?thesis by simp
next
  case (Inr canvas)
  from ResizeImage_resized [OF assms Inr] Inr show ?thesis by auto
qed

lemma processImage_step:
  assumes "(if cfg_Trim cfg then TrimTransparent alloc img0 else Inr img0) = Inr img"
  shows "processImage alloc cfg img0 =
           (if Dx (Bounds img) \<noteq> cfg_TileWidth cfg \<or> Dy (Bounds img) \<noteq> cfg_TileHeight cfg
            then ResizeImage alloc img (cfg_TileWidth cfg) (cfg_TileHeight cfg) else Inr img)"
  by (simp only: processImage_def assms sum.case Let_def)

lemma processImage_trim_panic:
  assumes "(if cfg_Trim cfg then TrimTransparent alloc img0 else Inr img0) = Inl p"
  shows "processImage alloc cfg img0 = Inl p"
  by (simp only: processImage_def assms sum.case)

lemma processImage_bounds:
  assumes "0 \<le> cfg_TileWidth cfg" "cfg_TileWidth cfg < 2 ^ 63"
    and "0 \<le> cfg_TileHeight cfg" "cfg_TileHeight cfg < 2 ^ 63"
    and r: "processImage alloc cfg img0 = Inr tile"
  shows "Dx (Bounds tile) = cfg_TileWidth cfg \<and> Dy (Bounds tile) = cfg_TileHeight cfg"
proof (cases "if cfg_Trim cfg then TrimTransparent alloc img0 else Inr img0")
  case (Inl p)
  from processImage_trim_panic [OF Inl] r show ?thesis by simp
next
  case (Inr img)
  note s = processImage_step [OF Inr]
  show ?thesis
  proof (cases "Dx (Bounds img) = cfg_TileWidth cfg \<and> Dy (Bounds img) = cfg_TileHeight cfg")
    case True
    with s r have "tile = img" by simp
    with True show ?thesis by simp
  next
    case False
    with s r have "ResizeImage alloc img (cfg_TileWidth cfg) (cfg_TileHeight cfg) = Inr tile"
      by auto
    with ResizeImage_cases [OF False, of alloc]
    have "Bounds tile = Rect 0 0 (cfg_TileWidth cfg) (cfg_TileHeight cfg)" by blast
    with assms(1-4) show ?thesis by (simp add: Dx_Rect0 Dy_Rect0)
  qed
qed

lemma loadImages_tiles:
  assumes "0 \<le> cfg_TileWidth cfg" "cfg_TileWidth cfg < 2 ^ 63"
    and "0 \<le> cfg_TileHeight cfg" "cfg_TileHeight cfg < 2 ^ 63"
    and "loadImages alloc loadImage cfg fileMappings = Inr images"
  shows "length images = length fileMappings
       \<and> (\<forall>info \<in> set images.
             Dx (Bounds (info_Image info)) = cfg_TileWidth cfg
           \<and> Dy (Bounds (info_Image info)) = cfg_TileHeight cfg
           \<and> info_Width info = cfg_TileWidth cfg
           \<and> info_Height info = cfg_TileHeight cfg)"
  using assms(5)
proof (induction fileMappings arbitrary: images)
  case Nil
  then show ?case by simp
next
  case (Cons mapping rest)
  from Cons.prems obtain img where l: "loadImage (fm_PNGPath mapping) = Inr img"
    by (auto split: sum.splits)
  from Cons.prems l obtain tile where p: "processImage alloc cfg img = Inr tile"
    by (auto split: sum.splits)
  from Cons.prems l p obtain images' where r: "loadImages alloc loadImage cfg rest = Inr images'"
    by (auto simp: Let_def split: sum.splits)
  from Cons.prems l p r obtain info where
    images: "images = info # images'" and i: "info_Image info = tile"
    and w: "info_Width info = Dx (Bounds tile)"
    and h: "info_Height info = Dy (Bounds tile)"
    by (auto simp: Let_def)
  note b = processImage_bounds [OF assms(1-4) p]
  from Cons.IH [OF r] b show ?case by (simp add: images i w h)
qed

text \<open>
  C9.  For a configured tile size that is not negative, every image that
  \<open>processImage\<close> returns has exactly the configured tile size, and so has every tile
  that \<open>loadImages\<close> hands on, with its recorded width and height.  An image of the
  tile size is returned as it is.  An image of another size (after the trimming, if
  that is configured) is resized: \<open>processImage\<close> returns unless \<open>image.NewRGBA\<close>
  cannot make the tile, the tile has the bounds \<open>(0, 0)\<close> to
  \<open>(tileWidth, tileHeight)\<close>, and its pixel \<open>(x, y)\<close> is the pixel of the source at the
  sampled position, which lies in the source and is at most one pixel away from the
  rounded-down position \<open>(x * width / tileWidth, y * height / tileHeight)\<close>.
\<close>

theorem processImage_tile_size:
  assumes "0 \<le> cfg_TileWidth cfg" "cfg_TileWidth cfg < 2 ^ 63"
    and "0 \<le> cfg_TileHeight cfg" "cfg_TileHeight cfg < 2 ^ 63"
  shows "(\<forall>tile. processImage alloc cfg img0 = Inr tile \<longrightarrow>
            Dx (Bounds tile) = cfg_TileWidth cfg \<and> Dy (Bounds tile) = cfg_TileHeight cfg)
       \<and> (\<forall>p. (if cfg_Trim cfg then TrimTransparent alloc img0 else Inr img0) = Inl p \<longrightarrow>
            processImage alloc cfg img0 = Inl p)
       \<and> (\<forall>img. (if cfg_Trim cfg then TrimTransparent alloc img0 else Inr img0) = Inr img \<longrightarrow>
            (Dx (Bounds img) = cfg_TileWidth cfg \<and> Dy (Bounds img) = cfg_TileHeight cfg \<longrightarrow>
               processImage alloc cfg img0 = Inr img)
          \<and> (Dx (Bounds img) \<noteq> cfg_TileWidth cfg \<or> Dy (Bounds img) \<noteq> cfg_TileHeight cfg \<longrightarrow>
               (isl (processImage alloc cfg img0) \<longleftrightarrow>
                  isl (NewRGBA alloc (Rect 0 0 (cfg_TileWidth cfg) (cfg_TileHeight cfg))))
             \<and> (\<forall>tile. processImage alloc cfg img0 = Inr tile \<longrightarrow>
                  Bounds tile = Rect 0 0 (cfg_TileWidth cfg) (cfg_TileHeight cfg)
                \<and> (\<forall>x y. 0 \<le> x \<and> x < cfg_TileWidth cfg \<and> 0 \<le> y \<and> y < cfg_TileHeight cfg \<longrightarrow>
                      At tile x y =
                        to_rgba (At img
                          (go_add (Min_X (Bounds img)) (nearest (Dx (Bounds img)) (cfg_TileWidth cfg) x))
                          (go_add (Min_Y (Bounds img)) (nearest (Dy (Bounds img)) (cfg_TileHeight cfg) y)))
                    \<and> (0 < Dx (Bounds img) \<and> Dx (Bounds img) < 2 ^ 48 \<and> cfg_TileWidth cfg < 2 ^ 48 \<longrightarrow>
                          0 \<le> nearest (Dx (Bounds img)) (cfg_TileWidth cfg) x
                        \<and> nearest (Dx (Bounds img)) (cfg_TileWidth cfg) x < Dx (Bounds img)
                        \<and> \<bar>nearest (Dx (Bounds img)) (cfg_TileWidth cfg) x
                             - (x * Dx (Bounds img)) div cfg_TileWidth cfg\<bar> \<le> 1)
                    \<and> (0 < Dy (Bounds img) \<and> Dy (Bounds img) < 2 ^ 48 \<and> cfg_TileHeight cfg < 2 ^ 48 \<longrightarrow>
                          0 \<le> nearest (Dy (Bounds img)) (cfg_TileHeight cfg) y
                        \<and> nearest (Dy (Bounds img)) (cfg_TileHeight cfg) y < Dy (Bounds img)
                        \<and> \<bar>nearest (Dy (Bounds img)) (cfg_TileHeight cfg) y
                             - (y * Dy (Bounds img)) div cfg_TileHeight cfg\<bar> \<le> 1)))))
       \<and> (\<forall>images. loadImages alloc loadImage cfg fileMappings = Inr images \<longrightarrow>
            length images = length fileMappings
          \<and> (\<forall>info \<in> set images.
                Dx (Bounds (info_Image info)) = cfg_TileWidth cfg
              \<and> Dy (Bounds (info_Image info)) = cfg_TileHeight cfg
              \<and> info_Width info = cfg_TileWidth cfg
              \<and> info_Height info = cfg_TileHeight cfg))"
proof -
  let ?tw = "cfg_TileWidth cfg" and ?th = "cfg_TileHeight cfg"
  let ?pre = "if cfg_Trim cfg then TrimTransparent alloc img0 else Inr img0"
  have A: "Dx (Bounds tile) = ?tw \<and> Dy (Bounds tile) = ?th"
    if "processImage alloc cfg img0 = Inr tile" for tile
    using processImage_bounds [OF assms that] .
  have B: "processImage alloc cfg img0 = Inl p" if "?pre = Inl p" for p
    using processImage_trim_panic [OF that] .
  have C1: "processImage alloc cfg img0 = Inr img"
    if "?pre = Inr img" "Dx (Bounds img) = ?tw \<and> Dy (Bounds img) = ?th" for img
    using processImage_step [OF that(1)] that(2) by simp
  have C2: "(isl (processImage alloc cfg img0) \<longleftrightarrow> isl (NewRGBA alloc (Rect 0 0 ?tw ?th)))
      \<and> (\<forall>tile. processImage alloc cfg img0 = Inr tile \<longrightarrow>
            Bounds tile = Rect 0 0 ?tw ?th
          \<and> (\<forall>x y. 0 \<le> x \<and> x < ?tw \<and> 0 \<le> y \<and> y < ?th \<longrightarrow>
                At tile x y =
                  to_rgba (At img (go_add (Min_X (Bounds img)) (nearest (Dx (Bounds img)) ?tw x))
                                  (go_add (Min_Y (Bounds img)) (nearest (Dy (Bounds img)) ?th y)))
              \<and> (0 < Dx (Bounds img) \<and> Dx (Bounds img) < 2 ^ 48 \<and> ?tw < 2 ^ 48 \<longrightarrow>
                    0 \<le> nearest (Dx (Bounds img)) ?tw x
                  \<and> nearest (Dx (Bounds img)) ?tw x < Dx (Bounds img)
                  \<and> \<bar>nearest (Dx (Bounds img)) ?tw x - (x * Dx (Bounds img)) div ?tw\<bar> \<le> 1)
              \<and> (0 < Dy (Bounds img) \<and> Dy (Bounds img) < 2 ^ 48 \<and> ?th < 2 ^ 48 \<longrightarrow>
                    0 \<le> nearest (Dy (Bounds img)) ?th y
                  \<and> nearest (Dy (Bounds img)) ?th y < Dy (Bounds img)
                  \<and> \<bar>nearest (Dy (Bounds img)) ?th y - (y * Dy (Bounds img)) div ?th\<bar> \<le> 1)))"
    if pre: "?pre = Inr img" and ne: "Dx (Bounds img) \<noteq> ?tw \<or> Dy (Bounds img) \<noteq> ?th" for img
  proof -
    from ne have ne': "\<not> (Dx (Bounds img) = ?tw \<and> Dy (Bounds img) = ?th)" by simp
    from processImage_step [OF pre] ne
    have s: "processImage alloc cfg img0 = ResizeImage alloc img ?tw ?th" by simp
    note rc = ResizeImage_cases [OF ne', of alloc]
    have nx: "0 \<le> nearest (Dx (Bounds img)) ?tw x
            \<and> nearest (Dx (Bounds img)) ?tw x < Dx (Bounds img)
            \<and> \<bar>nearest (Dx (Bounds img)) ?tw x - (x * Dx (Bounds img)) div ?tw\<bar> \<le> 1"
      if "0 \<le> x" "x < ?tw" "0 < Dx (Bounds img)" "Dx (Bounds img) < 2 ^ 48" "?tw < 2 ^ 48" for x
    proof -
      from that(1,2) have "0 < ?tw" by linarith
      from nearest_bounds [OF that(3,4) this that(5) that(1,2)] show ?thesis .
    qed
    have ny: "0 \<le> nearest (Dy (Bounds img)) ?th y
            \<and> nearest (Dy (Bounds img)) ?th y < Dy (Bounds img)
            \<and> \<bar>nearest (Dy (Bounds img)) ?th y - (y * Dy (Bounds img)) div ?th\<bar> \<le> 1"
      if "0 \<le> y" "y < ?th" "0 < Dy (Bounds img)" "Dy (Bounds img) < 2 ^ 48" "?th < 2 ^ 48" for y
    proof -
      from that(1,2) have "0 < ?th" by linarith
      from nearest_bounds [OF that(3,4) this that(5) that(1,2)] show ?thesis .
    qed
    from rc nx ny show ?thesis unfolding s by blast
  qed
  have E: "length images = length fileMappings
          \<and> (\<forall>info \<in> set images.
                Dx (Bounds (info_Image info)) = ?tw \<and> Dy (Bounds (info_Image info)) = ?th
              \<and> info_Width info = ?tw \<and> info_Height info = ?th)"
    if "loadImages alloc loadImage cfg fileMappings = Inr images" for images
    using loadImages_tiles [OF assms that] .
  from A B C1 C2 E show ?thesis by blast
qed

lemma nearest_10_64: "nearest 10 64 63 = 9" "nearest 10 64 0 = 0"
proof -
  have f10: "float64_of_int 10 = Some 10" and f64: "float64_of_int 64 = Some 64"
    and f63: "float64_of_int 63 = Some 63" and f0: "float64_of_int 0 = Some 0"
    using float64_of_int_exact [of 10] float64_of_int_exact [of 64] float64_of_int_exact [of 63]
      float64_of_int_exact [of 0]
    by simp_all
  have e5: "(of_int 5 * 2 powi (- 5) :: rat) = 5 / 32" by (simp add: power_int_minus_divide)
  have e315: "(of_int 315 * 2 powi (- 5) :: rat) = 315 / 32" by (simp add: power_int_minus_divide)
  have "fl (of_int 5 * 2 powi (- 5)) = Some (of_int 5 * 2 powi (- 5))"
    by (rule fl_exact) (simp_all add: power_int_minus_divide)
  then have q5: "fl (5 / 32) = Some (5 / 32)" by (simp only: e5)
  have "(10 / 64 :: rat) = 5 / 32" by simp
  with q5 have q: "fl (10 / 64) = Some (5 / 32)" by (simp only:)
  have sc: "fdiv (float64_of_int 10) (float64_of_int 64) = Some (5 / 32)"
    unfolding f10 f64 fdiv_def using q by (simp del: divide_divide_eq_left times_divide_eq_right)
  have "fl (of_int 315 * 2 powi (- 5)) = Some (of_int 315 * 2 powi (- 5))"
    by (rule fl_exact) (simp_all add: power_int_minus_divide)
  then have p315: "fl (315 / 32) = Some (315 / 32)" by (simp only: e315)
  have "(63 * (5 / 32) :: rat) = 315 / 32" by simp
  with p315 have p: "fl (63 * (5 / 32)) = Some (315 / 32)" by (simp only:)
  have fl9: "\<lfloor>315 / 32 :: rat\<rfloor> = 9"
    using floor_divide_of_int_eq [of 315 32, where ?'a = rat] by simp
  have "int_of_float64 (Some (315 / 32)) = \<lfloor>315 / 32 :: rat\<rfloor>"
    by (rule int_of_float64_floor) simp_all
  then have i9: "int_of_float64 (Some (315 / 32)) = 9" by (simp only: fl9)
  have "fmul (float64_of_int 63) (Some (5 / 32)) = fl (63 * (5 / 32))"
    by (simp only: f63 fmul_def prod.case option.case)
  then have i: "int_of_float64 (fmul (float64_of_int 63) (Some (5 / 32))) = 9"
    by (simp only: p i9)
  show "nearest 10 64 63 = 9" by (simp add: nearest_def Let_def sc i)
  have "int_of_float64 (fmul (float64_of_int 0) (Some (5 / 32))) = 0"
    by (simp add: f0 fmul_def fl_def int_of_float64_def in64_def)
  then show "nearest 10 64 0 = 0" by (simp add: nearest_def Let_def sc)
qed

theorem processImage_tile_size_witness:
  "\<exists>tile. processImage alloc_4G cfg_3cols ramp10 = Inr tile
     \<and> Dx (Bounds ramp10) = 10
     \<and> Dx (Bounds tile) = 64 \<and> Dy (Bounds tile) = 64
     \<and> At tile 63 0 = (2313, 0, 0, 65535)"
proof -
  have h: "0 \<le> cfg_TileWidth cfg_3cols" "cfg_TileWidth cfg_3cols < 2 ^ 63"
    "0 \<le> cfg_TileHeight cfg_3cols" "cfg_TileHeight cfg_3cols < 2 ^ 63"
    by (simp_all add: cfg_3cols_def)
  note t = processImage_tile_size [OF h, of alloc_4G ramp10]
  have pre: "(if cfg_Trim cfg_3cols then TrimTransparent alloc_4G ramp10 else Inr ramp10)
      = Inr ramp10"
    by (simp add: cfg_3cols_def)
  have d: "Dx (Bounds ramp10) = 10" "Dy (Bounds ramp10) = 10"
    by (simp_all add: ramp10_def Dx_Rect0 Dy_Rect0)
  have ne: "Dx (Bounds ramp10) \<noteq> cfg_TileWidth cfg_3cols
      \<or> Dy (Bounds ramp10) \<noteq> cfg_TileHeight cfg_3cols"
    by (simp add: d cfg_3cols_def)
  have "NewRGBA alloc_4G (Rect 0 0 64 64) = Inr (blank (Rect 0 0 64 64))"
    by (rule NewRGBA_ok) (simp_all add: Dx_Rect0 Dy_Rect0 alloc_4G_def)
  then have ok: "\<not> isl (NewRGBA alloc_4G
      (Rect 0 0 (cfg_TileWidth cfg_3cols) (cfg_TileHeight cfg_3cols)))"
    by (simp add: cfg_3cols_def)
  from t pre ne ok have "\<not> isl (processImage alloc_4G cfg_3cols ramp10)" by blast
  then obtain tile where r: "processImage alloc_4G cfg_3cols ramp10 = Inr tile"
    by (cases "processImage alloc_4G cfg_3cols ramp10") auto
  from t r have b: "Dx (Bounds tile) = cfg_TileWidth cfg_3cols"
    "Dy (Bounds tile) = cfg_TileHeight cfg_3cols"
    by blast+
  have xy: "0 \<le> (63::int) \<and> 63 < cfg_TileWidth cfg_3cols
      \<and> 0 \<le> (0::int) \<and> 0 < cfg_TileHeight cfg_3cols"
    by (simp add: cfg_3cols_def)
  from t pre ne r xy
  have "At tile 63 0 =
      to_rgba (At ramp10
        (go_add (Min_X (Bounds ramp10)) (nearest (Dx (Bounds ramp10)) (cfg_TileWidth cfg_3cols) 63))
        (go_add (Min_Y (Bounds ramp10)) (nearest (Dy (Bounds ramp10)) (cfg_TileHeight cfg_3cols) 0)))"
    by blast
  moreover have "cfg_TileWidth cfg_3cols = 64" "cfg_TileHeight cfg_3cols = 64"
    by (simp_all add: cfg_3cols_def)
  ultimately have "At tile 63 0 =
      to_rgba (At ramp10 (go_add (Min_X (Bounds ramp10)) 9) (go_add (Min_Y (Bounds ramp10)) 0))"
    by (simp only: d nearest_10_64)
  then have px: "At tile 63 0 = (2313, 0, 0, 65535)"
    by (simp add: ramp10_def Rect_def inside_def go_add_def wrap64_id in64_def to_rgba_def)
  from b have b': "Dx (Bounds tile) = 64" "Dy (Bounds tile) = 64" by (simp_all add: cfg_3cols_def)
  from r d(1) b' px show ?thesis by blast
qed

section \<open>Resolving the target size\<close>

text \<open>
  C6 (as the code has it).  With a positive scale the result is the pair of the
  \<open>float64\<close> products \<open>w * s\<close> and \<open>h * s\<close>, each truncated towards zero: not rounded
  to the nearest integer.
\<close>

theorem CalculateDimensions_scale_truncates:
  assumes "0 < opt_Scale opts"
    and "fmul (Some w) (Some (opt_Scale opts)) = Some p" "0 \<le> p" "p < 2 ^ 63"
    and "fmul (Some h) (Some (opt_Scale opts)) = Some q" "0 \<le> q" "q < 2 ^ 63"
  shows "CalculateDimensions opts (Some w) (Some h) = (\<lfloor>p\<rfloor>, \<lfloor>q\<rfloor>)"
  using assms(1)
  by (simp add: CalculateDimensions_def assms(2,5)
        int_of_float64_floor [OF assms(3,4)] int_of_float64_floor [OF assms(6,7)])

lemma floor_7_quarter: "\<lfloor>7 / 4 :: rat\<rfloor> = 1"
  using floor_divide_of_int_eq [of 7 4, where ?'a = rat] by simp

lemma fmul_7_quarter: "fmul (Some 7) (Some (1 / 4)) = Some (7 / 4)"
proof -
  have "of_int 7 * (2::rat) powi (- 2) < 2 ^ 1023" by (simp add: power_int_minus_divide)
  from fl_exact [OF _ _ _ this] have "fl (of_int 7 * (2::rat) powi (- 2)) = Some (of_int 7 * 2 powi (- 2))"
    by simp
  then show ?thesis by (simp add: fmul_def power_int_minus_divide)
qed

theorem CalculateDimensions_scale_truncates_witness:
  "CalculateDimensions \<lparr>opt_Scale = 1 / 4, opt_Width = 0, opt_Height = 0, opt_Verbose = False\<rparr>
     (Some 7) (Some 7) = (1, 1)"
proof -
  let ?opts = "\<lparr>opt_Scale = 1 / 4, opt_Width = 0, opt_Height = 0, opt_Verbose = False\<rparr>"
  have s: "0 < opt_Scale ?opts" by simp
  have m: "fmul (Some 7) (Some (opt_Scale ?opts)) = Some (7 / 4)" by (simp add: fmul_7_quarter)
  have b: "(0::rat) \<le> 7 / 4" "(7 / 4 :: rat) < 2 ^ 63" by simp_all
  from CalculateDimensions_scale_truncates [OF s m b m b]
  show ?thesis by (simp only: floor_7_quarter)
qed

text \<open>
  The claim C6 as it is written fails: a source of 7 by 7 at the scale 1/4 resolves
  to 1 by 1, and 7/4 rounded to the nearest integer is 2.
\<close>

theorem CalculateDimensions_scale_counterexample:
  "CalculateDimensions \<lparr>opt_Scale = 1 / 4, opt_Width = 0, opt_Height = 0, opt_Verbose = False\<rparr>
     (Some 7) (Some 7) = (1, 1)
   \<and> round (7 * (1 / 4) :: rat) = 2"
proof -
  have "int_of_float64 (Some (7 / 4)) = 1"
    using int_of_float64_floor [of "7 / 4"] by (simp add: floor_7_quarter)
  then have "CalculateDimensions \<lparr>opt_Scale = 1 / 4, opt_Width = 0, opt_Height = 0, opt_Verbose = False\<rparr>
     (Some 7) (Some 7) = (1, 1)"
    by (simp add: CalculateDimensions_def fmul_7_quarter)
  moreover have "round (7 * (1 / 4) :: rat) = 2"
    using floor_divide_of_int_eq [of 9 4, where ?'a = rat] by (simp add: round_def)
  ultimately show ?thesis by simp
qed

text \<open>
  C5 (as the code has it).  \<open>CalculateDimensions\<close> returns a pair of integers and has no
  error to fail with; a resolved dimension that is not positive is returned like any
  other.  With only the width \<open>W\<close> requested, on a source at least \<open>4 * W\<close> times as
  wide as it is high, the resolved size is \<open>(W, 0)\<close>; likewise \<open>(0, H)\<close> with only the
  height requested on a source that high.
\<close>

lemma aspect_rounds_to_zero:
  assumes W: "0 < W" "W < 2 ^ 53" and a: "0 < a" and b: "0 < b" and le: "4 * of_int W * a \<le> b"
  shows "int_of_float64 (fmul (float64_of_int W) (fdiv (Some a) (Some b))) = 0"
proof -
  have W1: "0 < W + 1" using W(1) by simp
  from pow2_between [OF W1] obtain t :: nat where t: "W + 1 \<le> 2 ^ t" "2 ^ t < 2 * (W + 1)" by blast
  have t54: "t < 55"
  proof (rule ccontr)
    assume "\<not> t < 55"
    then have "(2::int) ^ 55 \<le> 2 ^ t" by (intro power_increasing) simp_all
    with t(2) W(2) show False by simp
  qed
  have tW: "(2::rat) ^ t \<le> 4 * of_int W"
  proof -
    have "(2::int) ^ t \<le> 4 * W" using t(2) W(1) by simp
    then have "(of_int (2 ^ t) :: rat) \<le> of_int (4 * W)" by (simp only: of_int_le_iff)
    then show ?thesis by simp
  qed
  have Wt: "(of_int W :: rat) < 2 ^ t"
  proof -
    have "W < 2 ^ t" using t(1) by simp
    then have "(of_int W :: rat) < of_int (2 ^ t)" by (simp only: of_int_less_iff)
    then show ?thesis by simp
  qed
  have p: "(2::rat) powi (- int t) = 1 / 2 ^ t" by (simp add: power_int_minus_divide)
  define x where "x = a / b"
  have x0: "0 < x" using a b by (simp add: x_def)
  have x_le: "x \<le> of_int 1 * 2 powi (- int t)"
  proof -
    have "2 ^ t * a \<le> 4 * of_int W * a" using tW a by (intro mult_right_mono) simp_all
    with le have "2 ^ t * a \<le> b" by simp
    then show ?thesis using b by (simp add: x_def p field_simps)
  qed
  have big1: "of_int 1 * (2::rat) powi (- int t) < 2 ^ 1024"
  proof -
    have "(1::rat) / 2 ^ t \<le> 1" by simp
    also have "(1::rat) < 2 ^ 1024" by simp
    finally show ?thesis by (simp add: p)
  qed
  from fl_upper [OF _ _ _ x0 x_le big1] t54
  obtain r where r: "fl x = Some r" and r_hi: "r \<le> 1 / 2 ^ t" and r0: "0 \<le> r"
    by (auto simp: p)
  have fW: "float64_of_int W = Some (of_int W)"
    using W by (intro float64_of_int_exact) simp_all
  have d: "fdiv (Some a) (Some b) = Some r" using b by (simp add: fdiv_def r x_def [symmetric])
  have m: "fmul (float64_of_int W) (fdiv (Some a) (Some b)) = fl (of_int W * r)"
    by (simp add: fmul_def fW d)
  show ?thesis
  proof (cases "r = 0")
    case True
    then show ?thesis by (simp add: m fl_def int_of_float64_def in64_def)
  next
    case False
    with r0 have rpos: "0 < r" by simp
    have y0: "0 < of_int W * r" using W(1) rpos by simp
    have "of_int W * r \<le> of_int W * (1 / 2 ^ t)"
      using r_hi W(1) by (intro mult_left_mono) simp_all
    then have y_le: "of_int W * r \<le> of_int W * 2 powi (- int t)"
      by (simp only: p)
    have lt1: "of_int W * (2::rat) powi (- int t) < 1" using Wt by (simp add: p)
    then have big2: "of_int W * (2::rat) powi (- int t) < 2 ^ 1024" by (rule less_trans) simp
    from fl_upper [OF W _ y0 y_le big2] t54
    obtain s where s: "fl (of_int W * r) = Some s" and s_hi: "s \<le> of_int W * 2 powi (- int t)"
      and s0: "0 \<le> s"
      by auto
    from s_hi lt1 have "s < 1" by simp
    with s0 have "\<lfloor>s\<rfloor> = 0" by (simp add: floor_eq_iff)
    then show ?thesis using s0 by (simp add: m s int_of_float64_def in64_def)
  qed
qed

theorem CalculateDimensions_unchecked:
  assumes "0 < w" "0 < h"
  shows "(opt_Scale opts = 0 \<and> 0 < opt_Width opts \<and> opt_Width opts < 2 ^ 53 \<and> opt_Height opts = 0
            \<and> 4 * of_int (opt_Width opts) * h \<le> w \<longrightarrow>
          CalculateDimensions opts (Some w) (Some h) = (opt_Width opts, 0))
       \<and> (opt_Scale opts = 0 \<and> opt_Width opts = 0 \<and> 0 < opt_Height opts \<and> opt_Height opts < 2 ^ 53
            \<and> 4 * of_int (opt_Height opts) * w \<le> h \<longrightarrow>
          CalculateDimensions opts (Some w) (Some h) = (0, opt_Height opts))"
proof (intro conjI impI)
  assume a: "opt_Scale opts = 0 \<and> 0 < opt_Width opts \<and> opt_Width opts < 2 ^ 53 \<and> opt_Height opts = 0
            \<and> 4 * of_int (opt_Width opts) * h \<le> w"
  then have "int_of_float64 (fmul (float64_of_int (opt_Width opts)) (fdiv (Some h) (Some w))) = 0"
    using assms by (intro aspect_rounds_to_zero) simp_all
  with a show "CalculateDimensions opts (Some w) (Some h) = (opt_Width opts, 0)"
    by (simp add: CalculateDimensions_def)
next
  assume a: "opt_Scale opts = 0 \<and> opt_Width opts = 0 \<and> 0 < opt_Height opts \<and> opt_Height opts < 2 ^ 53
            \<and> 4 * of_int (opt_Height opts) * w \<le> h"
  then have "int_of_float64 (fmul (float64_of_int (opt_Height opts)) (fdiv (Some w) (Some h))) = 0"
    using assms by (intro aspect_rounds_to_zero) simp_all
  with a show "CalculateDimensions opts (Some w) (Some h) = (0, opt_Height opts)"
    by (simp add: CalculateDimensions_def)
qed

theorem CalculateDimensions_unchecked_witness:
  "CalculateDimensions \<lparr>opt_Scale = 0, opt_Width = 1, opt_Height = 0, opt_Verbose = False\<rparr>
     (Some 100) (Some 10) = (1, 0)"
proof -
  have h: "(0::rat) < 100" "(0::rat) < 10" by simp_all
  from CalculateDimensions_unchecked [OF h,
      of "\<lparr>opt_Scale = 0, opt_Width = 1, opt_Height = 0, opt_Verbose = False\<rparr>"]
  show ?thesis by simp
qed

text \<open>
  The claim C5 as it is written fails: with only the width 1 requested on a source
  of 4 by 1 the resolved height is 0, and it is returned.
\<close>

theorem CalculateDimensions_zero_counterexample:
  "CalculateDimensions \<lparr>opt_Scale = 0, opt_Width = 1, opt_Height = 0, opt_Verbose = False\<rparr>
     (Some 4) (Some 1) = (1, 0)"
proof -
  have "int_of_float64 (fmul (float64_of_int 1) (fdiv (Some 1) (Some 4))) = 0"
    by (rule aspect_rounds_to_zero) simp_all
  then show ?thesis by (simp add: CalculateDimensions_def)
qed

section \<open>The converter registry\<close>

text \<open>
  C7.  \<open>Create\<close> fails with \<open>ConverterNotFoundError\<close> and the identifier for an
  identifier that is not registered; it fails with \<open>ConverterUnavailableError\<close>, the
  identifier and the reason when the converter built by the registered factory is
  not available; and a converter that it returns is available.
\<close>

theorem Create_checks_availability:
  "(r converterType = None \<longrightarrow>
      Create host r converterType opts = Inl (ConverterNotFoundError converterType))
   \<and> (\<forall>factory reason.
        r converterType = Some factory \<and> conv_IsAvailable (factory opts) host = Some reason \<longrightarrow>
        Create host r converterType opts = Inl (ConverterUnavailableError converterType reason))
   \<and> (\<forall>converter.
        Create host r converterType opts = Inr converter \<longrightarrow>
        conv_IsAvailable converter host = None
        \<and> (\<exists>factory. r converterType = Some factory \<and> converter = factory opts))"
  by (auto simp: Create_def Let_def split: option.splits)

theorem Create_checks_availability_witness:
  "Create bare_host (NewConverterRegistry ''inkscape'') ''unknown-id'' no_options
     = Inl (ConverterNotFoundError ''unknown-id'')
   \<and> Create bare_host (NewConverterRegistry ''inkscape'') ''rod'' no_options
     = Inl (ConverterUnavailableError ''rod'' ''Chrome/Chromium browser not found'')
   \<and> Create bare_host (NewConverterRegistry ''inkscape'') ''oksvg'' no_options
     = Inr (NewOkSVGConverter no_options)
   \<and> conv_IsAvailable (NewOkSVGConverter no_options) bare_host = None"
proof -
  let ?r = "NewConverterRegistry ''inkscape''"
  have u: "?r ''unknown-id'' = None"
    by (simp add: NewConverterRegistry_def Register_def ConverterOkSVG_def ConverterRod_def
          ConverterRSVG_def)
  have rod: "?r ''rod'' = Some NewRodConverter"
    by (simp add: NewConverterRegistry_def Register_def ConverterOkSVG_def ConverterRod_def
          ConverterRSVG_def)
  have rod_un: "conv_IsAvailable (NewRodConverter no_options) bare_host
                  = Some ''Chrome/Chromium browser not found''"
    by (simp add: NewRodConverter_def bare_host_def)
  have ok: "Create bare_host ?r ''oksvg'' no_options = Inr (NewOkSVGConverter no_options)"
    by (simp add: Create_def NewConverterRegistry_def Register_def ConverterOkSVG_def
          ConverterRod_def ConverterRSVG_def NewOkSVGConverter_def)
  note t1 = Create_checks_availability [of ?r "''unknown-id''" bare_host no_options]
  note t2 = Create_checks_availability [of ?r "''rod''" bare_host no_options]
  note t3 = Create_checks_availability [of ?r "''oksvg''" bare_host no_options]
  from t1 u have a: "Create bare_host ?r ''unknown-id'' no_options
     = Inl (ConverterNotFoundError ''unknown-id'')" by blast
  from t2 rod rod_un have b: "Create bare_host ?r ''rod'' no_options
     = Inl (ConverterUnavailableError ''rod'' ''Chrome/Chromium browser not found'')" by blast
  from t3 ok have c: "conv_IsAvailable (NewOkSVGConverter no_options) bare_host = None" by blast
  from a b ok c show ?thesis by simp
qed


section \<open>The declared size of an SVG text\<close>

lemma Index_ge: "- 1 \<le> Index s pat"
  by (induction s) (simp_all add: Let_def)

text \<open>\<open>strings.Index\<close> finds the first place where the substring starts.\<close>

lemma Index_first:
  assumes "\<forall>k < n. \<not> prefix pat (drop k s)" "prefix pat (drop n s)" "n \<le> length s"
  shows "Index s pat = int n"
  using assms
proof (induction s arbitrary: n)
  case Nil
  then show ?case by simp
next
  case (Cons c cs)
  show ?case
  proof (cases n)
    case 0
    with Cons.prems(2) show ?thesis by simp
  next
    case (Suc m)
    from Cons.prems(1) Suc have n0: "\<not> prefix pat (c # cs)" by force
    have "\<forall>k < m. \<not> prefix pat (drop k cs)"
    proof (intro allI impI)
      fix k assume "k < m"
      then have "Suc k < n" using Suc by simp
      with Cons.prems(1) have "\<not> prefix pat (drop (Suc k) (c # cs))" by blast
      then show "\<not> prefix pat (drop k cs)" by simp
    qed
    moreover from Cons.prems(2) Suc have "prefix pat (drop m cs)" by simp
    moreover from Cons.prems(3) Suc have "m \<le> length cs" by simp
    ultimately have "Index cs pat = int m" by (rule Cons.IH)
    with n0 Suc show ?thesis by (simp add: Let_def)
  qed
qed

lemma Index_is_first:
  assumes "Index s pat = int n"
  shows "(\<forall>k < n. \<not> prefix pat (drop k s)) \<and> prefix pat (drop n s) \<and> n \<le> length s"
  using assms
proof (induction s arbitrary: n)
  case Nil
  then show ?case by (simp split: if_splits)
next
  case (Cons c cs)
  show ?case
  proof (cases "prefix pat (c # cs)")
    case True
    with Cons.prems have "n = 0" by simp
    with True show ?thesis by simp
  next
    case False
    with Cons.prems have i: "Index cs pat \<noteq> - 1" and e: "Index cs pat + 1 = int n"
      by (simp_all add: Let_def split: if_splits)
    from i Index_ge [of cs pat] have "0 \<le> Index cs pat" by linarith
    with e obtain m where n: "n = Suc m" and m: "Index cs pat = int m"
      by (cases n) simp_all
    from Cons.IH [OF m]
    have ih: "\<forall>k < m. \<not> prefix pat (drop k cs)" "prefix pat (drop m cs)" "m \<le> length cs"
      by blast+
    have "\<not> prefix pat (drop k (c # cs))" if "k < n" for k
    proof (cases k)
      case 0
      with False show ?thesis by simp
    next
      case (Suc k')
      with that n have "k' < m" by simp
      with ih(1) Suc show ?thesis by simp
    qed
    with ih(2,3) n show ?thesis by simp
  qed
qed

text \<open>
  An attribute that the search finds: the text holds the name with the equals sign
  and the quote (\<open>pat\<close>) for the first time behind \<open>pre\<close>, then the value \<open>v\<close> without a
  quote in it, and the closing quote.
\<close>

lemma attribute_found:
  assumes s: "s = pre @ pat @ v @ dquote @ post"
    and first: "\<forall>k < length pre. \<not> prefix pat (drop k s)"
    and vq: "CHR 0x22 \<notin> set v"
  shows "Index s pat = int (length pre)"
    and "Index (slice_from s (int (length pre) + int (length pat))) dquote = int (length v)"
    and "slice s (int (length pre) + int (length pat))
           (int (length pre) + int (length pat) + int (length v)) = v"
proof -
  show "Index s pat = int (length pre)"
    by (rule Index_first [OF first]) (simp_all add: s)
  have d: "drop (length pre + length pat) s = v @ dquote @ post" by (simp add: s)
  have sf: "slice_from s (int (length pre) + int (length pat)) = v @ dquote @ post"
    using d by (simp add: slice_from_def nat_add_distrib)
  have "\<forall>k < length v. \<not> prefix dquote (drop k (v @ dquote @ post))"
  proof (intro allI impI)
    fix k assume k: "k < length v"
    then have "drop k v = v ! k # drop (Suc k) v" by (simp add: Cons_nth_drop_Suc)
    moreover have "v ! k \<noteq> CHR 0x22" using k vq by (metis nth_mem)
    ultimately show "\<not> prefix dquote (drop k (v @ dquote @ post))"
      using k by (simp add: dquote_def)
  qed
  then show "Index (slice_from s (int (length pre) + int (length pat))) dquote = int (length v)"
    unfolding sf by (rule Index_first) (simp_all add: dquote_def)
  show "slice s (int (length pre) + int (length pat))
           (int (length pre) + int (length pat) + int (length v)) = v"
    using d by (simp add: slice_def nat_add_distrib)
qed

text \<open>
  Where the explicit attributes are found and can be parsed, their values are the
  result, whatever the attribute \<open>viewBox\<close> holds.
\<close>

lemma parseSVGDimensions_with_explicit:
  assumes w: "s = pw @ (''width='' @ dquote) @ vw @ dquote @ qw"
      "\<forall>k < length pw. \<not> prefix (''width='' @ dquote) (drop k s)"
      "CHR 0x22 \<notin> set vw" "parseFloat vw = Some w"
    and h: "s = ph @ (''height='' @ dquote) @ vh @ dquote @ qh"
      "\<forall>k < length ph. \<not> prefix (''height='' @ dquote) (drop k s)"
      "CHR 0x22 \<notin> set vh" "parseFloat vh = Some h"
  shows "parseSVGDimensions_with parseFloat s = (w, h)"
proof -
  note aw = attribute_found [OF w(1,2,3)]
  note ah = attribute_found [OF h(1,2,3)]
  have lw: "int (length (''width='' @ dquote)) = 7" and lh: "int (length (''height='' @ dquote)) = 8"
    by (simp_all add: dquote_def)
  have iw: "Index s (''width='' @ dquote) = int (length pw)" by (rule aw(1))
  have w2: "Index (slice_from s (int (length pw) + 7)) dquote = int (length vw)"
    using aw(2) by (simp only: lw)
  have w3: "slice s (int (length pw) + 7) (int (length pw) + 7 + int (length vw)) = vw"
    using aw(3) by (simp only: lw)
  have ih: "Index s (''height='' @ dquote) = int (length ph)" by (rule ah(1))
  have h2: "Index (slice_from s (int (length ph) + 8)) dquote = int (length vh)"
    using ah(2) by (simp only: lh)
  have h3: "slice s (int (length ph) + 8) (int (length ph) + 8 + int (length vh)) = vh"
    using ah(3) by (simp only: lh)
  have n: "(int (length pw) \<noteq> - 1) = True" "(int (length vw) \<noteq> - 1) = True"
    "(int (length ph) \<noteq> - 1) = True" "(int (length vh) \<noteq> - 1) = True"
    by simp_all
  show ?thesis
    unfolding parseSVGDimensions_with_def Let_def split_def
    by (simp only: iw w2 w3 ih h2 h3 n w(4) h(4) if_True option.case)
qed

lemma suffix_last: "suffix xs ys \<Longrightarrow> xs \<noteq> [] \<Longrightarrow> last ys = last xs"
  by (auto simp: suffix_def)

lemma TrimSuffix_append: "TrimSuffix (d @ suf) suf = d"
proof -
  have "suffix suf (d @ suf)" by (auto simp: suffix_def)
  then show ?thesis by (simp add: TrimSuffix_def)
qed

lemma TrimSuffix_digit:
  assumes "d \<noteq> []" "is_digit (last d)" "suf \<noteq> []" "\<not> is_digit (last suf)"
  shows "TrimSuffix d suf = d"
proof -
  have "\<not> suffix suf d"
  proof
    assume "suffix suf d"
    from suffix_last [OF this assms(3)] assms(2,4) show False by simp
  qed
  then show ?thesis by (simp add: TrimSuffix_def)
qed

lemma unit_suffixes:
  assumes "d \<noteq> []" "is_digit (last d)"
  shows "TrimSuffix d ''px'' = d" "TrimSuffix d ''pt'' = d" "TrimSuffix d ''em'' = d"
    "TrimSuffix d ''rem'' = d"
  by (rule TrimSuffix_digit [OF assms]; simp add: is_digit_def)+

lemma TrimSuffix_r: "TrimSuffix (d @ ''r'') suf = d @ ''r''"
  if "suf = ''px'' \<or> suf = ''pt'' \<or> suf = ''em'' \<or> suf = ''rem''" "d \<noteq> []" "is_digit (last d)"
proof -
  have "\<not> suffix suf (d @ ''r'')"
  proof
    assume s: "suffix suf (d @ ''r'')"
    from that(1) have ne: "suf \<noteq> []" by auto
    from suffix_last [OF s ne] have l: "last suf = CHR ''r''" by simp
    from that(1) l show False by auto
  qed
  then show ?thesis by (simp only: TrimSuffix_def if_False)
qed

lemma parseFloatRod_units:
  assumes "d \<noteq> []" "is_digit (last d)"
  shows "parseFloatRod scan d = scan d"
    and "parseFloatRod scan (d @ ''px'') = scan d"
    and "parseFloatRod scan (d @ ''pt'') = scan d"
    and "parseFloatRod scan (d @ ''em'') = scan d"
    and "parseFloatRod scan (d @ ''rem'') = scan (d @ ''r'')"
proof -
  note u = unit_suffixes [OF assms]
  show "parseFloatRod scan d = scan d" by (simp add: parseFloatRod_def Let_def u)
  show "parseFloatRod scan (d @ ''px'') = scan d"
    by (simp only: parseFloatRod_def Let_def TrimSuffix_append u)
  have pt: "TrimSuffix (d @ ''pt'') ''px'' = d @ ''pt''"
    by (auto simp: TrimSuffix_def suffix_def append_eq_append_conv2 Cons_eq_append_conv)
  show "parseFloatRod scan (d @ ''pt'') = scan d"
    by (simp only: parseFloatRod_def Let_def pt TrimSuffix_append u)
  have em: "TrimSuffix (d @ ''em'') ''px'' = d @ ''em''" "TrimSuffix (d @ ''em'') ''pt'' = d @ ''em''"
    by (auto simp: TrimSuffix_def suffix_def append_eq_append_conv2 Cons_eq_append_conv)
  show "parseFloatRod scan (d @ ''em'') = scan d"
    by (simp only: parseFloatRod_def Let_def em TrimSuffix_append u)
  have rem: "TrimSuffix (d @ ''rem'') ''px'' = d @ ''rem''" "TrimSuffix (d @ ''rem'') ''pt'' = d @ ''rem''"
    by (auto simp: TrimSuffix_def suffix_def append_eq_append_conv2 Cons_eq_append_conv)
  have rem2: "TrimSuffix (d @ ''rem'') ''em'' = d @ ''r''"
    using TrimSuffix_append [of "d @ ''r''" "''em''"] by simp
  have r: "TrimSuffix (d @ ''r'') ''rem'' = d @ ''r''"
    by (rule TrimSuffix_r [OF _ assms]) simp
  show "parseFloatRod scan (d @ ''rem'') = scan (d @ ''r'')"
    by (simp only: parseFloatRod_def Let_def rem rem2 r)
qed

text \<open>
  Of the suffix \<open>rem\<close> the letters \<open>em\<close> are removed first, so that the scanner is
  given the digits with the \<open>r\<close>.
\<close>

lemma parseFloatRod_rem:
  "d \<noteq> [] \<Longrightarrow> is_digit (last d) \<Longrightarrow> parseFloatRod scan (d @ ''rem'') = scan (d @ ''r'')"
  by (rule parseFloatRod_units)

lemma parseFloatRSVG_eq: "parseFloatRSVG = parseFloatRod"
  by (intro ext) (simp add: parseFloatRSVG_def parseFloatRod_def)

lemma parseFloatRod_unit:
  assumes "d \<noteq> []" "is_digit (last d)" "u \<in> {[], ''px'', ''pt'', ''em''}"
  shows "parseFloatRod scan (d @ u) = scan d"
  using assms(3) parseFloatRod_units(1-4) [OF assms(1,2), of scan] by auto

text \<open>
  C4 (as the code has it).  In an SVG text in which the first \<open>width="\<close> and the first
  \<open>height="\<close> are those of the explicit attributes, with values that are a number
  (ending in a digit) and one of the units \<open>px\<close>, \<open>pt\<close>, \<open>em\<close> or none,
  \<open>parseSVGDimensions\<close> returns the width and the height of the explicit attributes:
  what the scanner reads from the numbers without their units.  The attribute
  \<open>viewBox\<close> has no part in this result.
\<close>

theorem parseSVGDimensions_explicit_first:
  assumes "svgData = pw @ ''width='' @ dquote @ (dw @ uw) @ dquote @ qw"
    and "\<forall>k < length pw. \<not> prefix (''width='' @ dquote) (drop k svgData)"
    and "CHR 0x22 \<notin> set (dw @ uw)"
    and "dw \<noteq> []" "is_digit (last dw)" "uw \<in> {[], ''px'', ''pt'', ''em''}" "scan dw = Some w"
    and "svgData = ph @ ''height='' @ dquote @ (dh @ uh) @ dquote @ qh"
    and "\<forall>k < length ph. \<not> prefix (''height='' @ dquote) (drop k svgData)"
    and "CHR 0x22 \<notin> set (dh @ uh)"
    and "dh \<noteq> []" "is_digit (last dh)" "uh \<in> {[], ''px'', ''pt'', ''em''}" "scan dh = Some h"
  shows "Rod_parseSVGDimensions scan svgData = (w, h)
       \<and> RSVG_parseSVGDimensions scan svgData = (w, h)"
proof -
  have pw: "parseFloatRod scan (dw @ uw) = Some w"
    using parseFloatRod_unit [OF assms(4,5,6), of scan] assms(7) by simp
  have ph: "parseFloatRod scan (dh @ uh) = Some h"
    using parseFloatRod_unit [OF assms(11,12,13), of scan] assms(14) by simp
  have sw: "svgData = pw @ (''width='' @ dquote) @ (dw @ uw) @ dquote @ qw"
    using assms(1) by simp
  have sh: "svgData = ph @ (''height='' @ dquote) @ (dh @ uh) @ dquote @ qh"
    using assms(8) by simp
  from parseSVGDimensions_with_explicit [OF sw assms(2,3) pw sh assms(9,10) ph]
  show ?thesis
    by (simp add: Rod_parseSVGDimensions_def RSVG_parseSVGDimensions_def parseFloatRSVG_eq)
qed

lemma fl_small:
  "fl 200 = Some 200" "fl 100 = Some 100" "fl 50 = Some 50" "fl 60 = Some 60"
  using fl_exact_int [of 200] fl_exact_int [of 100] fl_exact_int [of 50] fl_exact_int [of 60]
  by simp_all

lemma scan_digits_values:
  "scan_digits ''200'' = Some (Some 200)"
  "scan_digits ''100'' = Some (Some 100)"
  "scan_digits ''50'' = Some (Some 50)"
  "scan_digits ''60'' = Some (Some 60)"
  by (simp_all add: scan_digits_def is_digit_def digits_val_def fl_small)

lemma svg_both_width:
  "svg_both = ''<svg '' @ ''width='' @ dquote @ (''200'' @ []) @ dquote
              @ ('' height='' @ dquote @ ''100'' @ dquote @ '' viewBox='' @ dquote @ ''0 0 50 60''
                 @ dquote @ ''>'')"
  "\<forall>k < length ''<svg ''. \<not> prefix (''width='' @ dquote) (drop k svg_both)"
proof -
  show "svg_both = ''<svg '' @ ''width='' @ dquote @ (''200'' @ []) @ dquote
              @ ('' height='' @ dquote @ ''100'' @ dquote @ '' viewBox='' @ dquote @ ''0 0 50 60''
                 @ dquote @ ''>'')"
    by (simp add: svg_both_def)
  have "Index svg_both (''width='' @ dquote) = int 5" by code_simp
  from Index_is_first [OF this] show
    "\<forall>k < length ''<svg ''. \<not> prefix (''width='' @ dquote) (drop k svg_both)"
    by simp
qed

lemma svg_both_height:
  "svg_both = (''<svg width='' @ dquote @ ''200'' @ dquote @ '' '') @ ''height='' @ dquote
              @ (''100'' @ []) @ dquote @ ('' viewBox='' @ dquote @ ''0 0 50 60'' @ dquote @ ''>'')"
  "\<forall>k < length (''<svg width='' @ dquote @ ''200'' @ dquote @ '' '').
      \<not> prefix (''height='' @ dquote) (drop k svg_both)"
proof -
  show "svg_both = (''<svg width='' @ dquote @ ''200'' @ dquote @ '' '') @ ''height='' @ dquote
              @ (''100'' @ []) @ dquote @ ('' viewBox='' @ dquote @ ''0 0 50 60'' @ dquote @ ''>'')"
    by (simp add: svg_both_def)
  have "Index svg_both (''height='' @ dquote) = int 17" by code_simp
  from Index_is_first [OF this] show
    "\<forall>k < length (''<svg width='' @ dquote @ ''200'' @ dquote @ '' '').
      \<not> prefix (''height='' @ dquote) (drop k svg_both)"
    by (simp add: dquote_def)
qed

theorem parseSVGDimensions_explicit_first_witness:
  "Rod_parseSVGDimensions scan_digits svg_both = (Some 200, Some 100)
   \<and> RSVG_parseSVGDimensions scan_digits svg_both = (Some 200, Some 100)"
proof -
  have q: "CHR 0x22 \<notin> set (''200'' @ [])" "CHR 0x22 \<notin> set (''100'' @ [])" by simp_all
  have d: "''200'' \<noteq> []" "is_digit (last ''200'')" "''100'' \<noteq> []" "is_digit (last ''100'')"
    by (simp_all add: is_digit_def)
  have u: "[] \<in> {[], ''px'', ''pt'', ''em''}" by simp
  from parseSVGDimensions_explicit_first
    [OF svg_both_width q(1) d(1,2) u scan_digits_values(1)
        svg_both_height q(2) d(3,4) u scan_digits_values(2)]
  show ?thesis .
qed

text \<open>
  The claim C4 as it is written fails: for a text with an explicit size of 200 by
  100 and a view box whose fields read 50 by 60, the size returned is 200 by 100.
\<close>

theorem parseSVGDimensions_viewBox_counterexample:
  "svg_both = ''<svg width='' @ dquote @ ''200'' @ dquote @ '' height='' @ dquote @ ''100''
              @ dquote @ '' viewBox='' @ dquote @ ''0 0 50 60'' @ dquote @ ''>''
   \<and> Fields ''0 0 50 60'' = [''0'', ''0'', ''50'', ''60'']
   \<and> parseFloatRod scan_digits ''50'' = Some (Some 50)
   \<and> parseFloatRod scan_digits ''60'' = Some (Some 60)
   \<and> Rod_parseSVGDimensions scan_digits svg_both = (Some 200, Some 100)
   \<and> RSVG_parseSVGDimensions scan_digits svg_both = (Some 200, Some 100)"
proof -
  have f: "Fields ''0 0 50 60'' = [''0'', ''0'', ''50'', ''60'']"
    by (simp add: Fields_def IsSpace_def)
  have p: "parseFloatRod scan_digits ''200'' = Some (Some 200)"
    "parseFloatRod scan_digits ''100'' = Some (Some 100)"
    "parseFloatRod scan_digits ''50'' = Some (Some 50)"
    "parseFloatRod scan_digits ''60'' = Some (Some 60)"
    using parseFloatRod_units(1) [of "''200''" scan_digits]
      parseFloatRod_units(1) [of "''100''" scan_digits]
      parseFloatRod_units(1) [of "''50''" scan_digits]
      parseFloatRod_units(1) [of "''60''" scan_digits]
    by (simp_all add: is_digit_def scan_digits_values)
  have sw: "svg_both = ''<svg '' @ (''width='' @ dquote) @ ''200'' @ dquote
              @ ('' height='' @ dquote @ ''100'' @ dquote @ '' viewBox='' @ dquote @ ''0 0 50 60''
                 @ dquote @ ''>'')"
    using svg_both_width(1) by simp
  have sh: "svg_both = (''<svg width='' @ dquote @ ''200'' @ dquote @ '' '') @ (''height='' @ dquote)
              @ ''100'' @ dquote @ ('' viewBox='' @ dquote @ ''0 0 50 60'' @ dquote @ ''>'')"
    using svg_both_height(1) by simp
  have q: "CHR 0x22 \<notin> set ''200''" "CHR 0x22 \<notin> set ''100''" by simp_all
  note r = parseSVGDimensions_with_explicit
    [OF sw svg_both_width(2) q(1) p(1) sh svg_both_height(2) q(2) p(2)]
  have s: "svg_both = ''<svg width='' @ dquote @ ''200'' @ dquote @ '' height='' @ dquote @ ''100''
              @ dquote @ '' viewBox='' @ dquote @ ''0 0 50 60'' @ dquote @ ''>''"
    by (simp add: svg_both_def)
  from s f p(3,4) r show ?thesis
    by (simp only: Rod_parseSVGDimensions_def RSVG_parseSVGDimensions_def parseFloatRSVG_eq)
qed

section \<open>The round trip of the metadata\<close>

lemma split_byte: "y < m \<Longrightarrow> (x * m + y) div m = (x::nat) \<and> (x * m + y) mod m = y"
  by simp

lemma split3:
  assumes "y < 64" "z < 64"
  shows "(x * 4096 + y * 64 + z) div 4096 = (x::nat)"
    and "((x * 4096 + y * 64 + z) div 64) mod 64 = y"
    and "(x * 4096 + y * 64 + z) mod 64 = z"
proof -
  let ?r = "x * 4096 + y * 64 + z"
  have e: "?r = (x * 64 + y) * 64 + z" by simp
  have e': "?r = x * 4096 + (y * 64 + z)" by simp
  from assms have s: "y * 64 + z < 4096" by simp
  show "?r div 4096 = x" unfolding e' using s by (rule split_byte [THEN conjunct1])
  have "?r div 64 = x * 64 + y" unfolding e using assms(2) by (rule split_byte [THEN conjunct1])
  then show "(?r div 64) mod 64 = y" using assms(1) by (simp only: split_byte)
  show "?r mod 64 = z" unfolding e using assms(2) by (rule split_byte [THEN conjunct2])
qed

lemma split4:
  assumes "y < 64" "z < 64" "w < 64"
  shows "(x * 262144 + y * 4096 + z * 64 + w) div 262144 = (x::nat)"
    and "((x * 262144 + y * 4096 + z * 64 + w) div 4096) mod 64 = y"
    and "((x * 262144 + y * 4096 + z * 64 + w) div 64) mod 64 = z"
    and "(x * 262144 + y * 4096 + z * 64 + w) mod 64 = w"
proof -
  let ?r = "x * 262144 + y * 4096 + z * 64 + w"
  have e1: "?r = ((x * 64 + y) * 64 + z) * 64 + w" by simp
  have e2: "?r = (x * 64 + y) * 4096 + (z * 64 + w)" by simp
  have e3: "?r = x * 262144 + (y * 4096 + z * 64 + w)" by simp
  from assms have s: "z * 64 + w < 4096" by simp
  from assms have t: "y * 4096 + z * 64 + w < 262144" by simp
  show "?r div 262144 = x" unfolding e3 using t by (rule split_byte [THEN conjunct1])
  have "?r div 4096 = x * 64 + y" unfolding e2 using s by (rule split_byte [THEN conjunct1])
  then show "(?r div 4096) mod 64 = y" using assms(1) by (simp only: split_byte)
  have "?r div 64 = (x * 64 + y) * 64 + z"
    unfolding e1 using assms(3) by (rule split_byte [THEN conjunct1])
  then show "(?r div 64) mod 64 = z" using assms(2) by (simp only: split_byte)
  show "?r mod 64 = w" unfolding e1 using assms(3) by (rule split_byte [THEN conjunct2])
qed



lemma some_if: "(if c then Some v else None) = Some w \<Longrightarrow> c \<and> v = w"
  by (cases c) simp_all

lemma some_case_list:
  assumes "(case xs of [] \<Rightarrow> None | x # ys \<Rightarrow> f x ys) = Some w"
  obtains x ys where "xs = x # ys" "f x ys = Some w"
  using assms by (cases xs) simp_all

lemma rune_at_cases:
  assumes "rune_at (b # bs) = Some (r, k)"
  obtains (one) "b < 0x80" "r = b" "k = 0"
  | (two) b1 rest where "0xC2 \<le> b" "b \<le> 0xDF" "bs = b1 # rest" "0x80 \<le> b1" "b1 \<le> 0xBF"
      "r = (b - 0xC0) * 64 + (b1 - 0x80)" "k = 1"
  | (three) b1 b2 rest where "0xE0 \<le> b" "b \<le> 0xEF" "bs = b1 # b2 # rest"
      "0x80 \<le> b1" "b1 \<le> 0xBF" "b = 0xE0 \<longrightarrow> 0xA0 \<le> b1" "b = 0xED \<longrightarrow> b1 \<le> 0x9F"
      "0x80 \<le> b2" "b2 \<le> 0xBF"
      "r = (b - 0xE0) * 4096 + (b1 - 0x80) * 64 + (b2 - 0x80)" "k = 2"
  | (four) b1 b2 b3 rest where "0xF0 \<le> b" "b \<le> 0xF4" "bs = b1 # b2 # b3 # rest"
      "0x80 \<le> b1" "b1 \<le> 0xBF" "b = 0xF0 \<longrightarrow> 0x90 \<le> b1" "b = 0xF4 \<longrightarrow> b1 \<le> 0x8F"
      "0x80 \<le> b2" "b2 \<le> 0xBF" "0x80 \<le> b3" "b3 \<le> 0xBF"
      "r = (b - 0xF0) * 262144 + (b1 - 0x80) * 4096 + (b2 - 0x80) * 64 + (b3 - 0x80)" "k = 3"
proof (cases "b < 0x80")
  case True
  from assms have "Some (b, 0) = Some (r, k)" by (simp only: rune_at.simps True if_True)
  then have "r = b" "k = 0" by simp_all
  with True one show ?thesis by blast
next
  case n1: False
  show ?thesis
  proof (cases "0xC2 \<le> b \<and> b \<le> 0xDF")
    case True
    from assms have
      "(case bs of [] \<Rightarrow> None
        | b1 # x \<Rightarrow>
          if 0x80 \<le> b1 \<and> b1 \<le> 0xBF then Some ((b - 0xC0) * 64 + (b1 - 0x80), 1) else None)
       = Some (r, k)"
      by (simp only: rune_at.simps n1 True if_True if_False simp_thms)
    then obtain b1 rest where bs: "bs = b1 # rest"
      and c: "(if 0x80 \<le> b1 \<and> b1 \<le> 0xBF then Some ((b - 0xC0) * 64 + (b1 - 0x80), 1) else None)
              = Some (r, k)"
      by (rule some_case_list)
    from some_if [OF c] have "0x80 \<le> b1" "b1 \<le> 0xBF"
      and "((b - 0xC0) * 64 + (b1 - 0x80), 1) = (r, k)"
      by blast+
    then have "0x80 \<le> b1" "b1 \<le> 0xBF" "r = (b - 0xC0) * 64 + (b1 - 0x80)" "k = 1"
      by (simp_all only: prod.inject)
    with True bs two show ?thesis by blast
  next
    case n2: False
    show ?thesis
    proof (cases "0xE0 \<le> b \<and> b \<le> 0xEF")
      case True
      from assms have
        "(case bs of [] \<Rightarrow> None
          | b1 # x \<Rightarrow>
            (case x of [] \<Rightarrow> None
             | b2 # y \<Rightarrow>
               if (if b = 0xE0 then 0xA0 else 0x80) \<le> b1
                  \<and> b1 \<le> (if b = 0xED then 0x9F else 0xBF)
                  \<and> 0x80 \<le> b2 \<and> b2 \<le> 0xBF
               then Some ((b - 0xE0) * 4096 + (b1 - 0x80) * 64 + (b2 - 0x80), 2) else None))
         = Some (r, k)"
        by (simp only: rune_at.simps n1 n2 True if_True if_False simp_thms)
      then obtain b1 x where bs1: "bs = b1 # x"
        and c1: "(case x of [] \<Rightarrow> None
             | b2 # y \<Rightarrow>
               if (if b = 0xE0 then 0xA0 else 0x80) \<le> b1
                  \<and> b1 \<le> (if b = 0xED then 0x9F else 0xBF)
                  \<and> 0x80 \<le> b2 \<and> b2 \<le> 0xBF
               then Some ((b - 0xE0) * 4096 + (b1 - 0x80) * 64 + (b2 - 0x80), 2) else None)
           = Some (r, k)"
        by (rule some_case_list)
      from c1 obtain b2 rest where bs2: "x = b2 # rest"
        and c: "(if (if b = 0xE0 then 0xA0 else 0x80) \<le> b1
                  \<and> b1 \<le> (if b = 0xED then 0x9F else 0xBF)
                  \<and> 0x80 \<le> b2 \<and> b2 \<le> 0xBF
               then Some ((b - 0xE0) * 4096 + (b1 - 0x80) * 64 + (b2 - 0x80), 2) else None)
           = Some (r, k)"
        by (rule some_case_list)
      from some_if [OF c] have lo: "(if b = 0xE0 then 0xA0 else 0x80) \<le> b1"
        and hi: "b1 \<le> (if b = 0xED then 0x9F else 0xBF)"
        and b2: "0x80 \<le> b2" "b2 \<le> 0xBF"
        and e: "((b - 0xE0) * 4096 + (b1 - 0x80) * 64 + (b2 - 0x80), 2) = (r, k)"
        by blast+
      from e have rk: "r = (b - 0xE0) * 4096 + (b1 - 0x80) * 64 + (b2 - 0x80)" "k = 2"
        by (simp_all only: prod.inject)
      from lo have l: "0x80 \<le> b1" "b = 0xE0 \<longrightarrow> 0xA0 \<le> b1" by (simp_all split: if_splits)
      from hi have h: "b1 \<le> 0xBF" "b = 0xED \<longrightarrow> b1 \<le> 0x9F" by (simp_all split: if_splits)
      from bs1 bs2 have "bs = b1 # b2 # rest" by simp
      with True l h b2 rk three show ?thesis by blast
    next
      case n3: False
      show ?thesis
      proof (cases "0xF0 \<le> b \<and> b \<le> 0xF4")
        case True
        from assms have
          "(case bs of [] \<Rightarrow> None
            | b1 # x \<Rightarrow>
              (case x of [] \<Rightarrow> None
               | b2 # y \<Rightarrow>
                 (case y of [] \<Rightarrow> None
                  | b3 # z \<Rightarrow>
                    if (if b = 0xF0 then 0x90 else 0x80) \<le> b1
                       \<and> b1 \<le> (if b = 0xF4 then 0x8F else 0xBF)
                       \<and> 0x80 \<le> b2 \<and> b2 \<le> 0xBF \<and> 0x80 \<le> b3 \<and> b3 \<le> 0xBF
                    then Some ((b - 0xF0) * 262144 + (b1 - 0x80) * 4096 + (b2 - 0x80) * 64
                               + (b3 - 0x80), 3)
                    else None)))
           = Some (r, k)"
          by (simp only: rune_at.simps n1 n2 n3 True if_True if_False simp_thms)
        then obtain b1 x where bs1: "bs = b1 # x"
          and c1: "(case x of [] \<Rightarrow> None
               | b2 # y \<Rightarrow>
                 (case y of [] \<Rightarrow> None
                  | b3 # z \<Rightarrow>
                    if (if b = 0xF0 then 0x90 else 0x80) \<le> b1
                       \<and> b1 \<le> (if b = 0xF4 then 0x8F else 0xBF)
                       \<and> 0x80 \<le> b2 \<and> b2 \<le> 0xBF \<and> 0x80 \<le> b3 \<and> b3 \<le> 0xBF
                    then Some ((b - 0xF0) * 262144 + (b1 - 0x80) * 4096 + (b2 - 0x80) * 64
                               + (b3 - 0x80), 3)
                    else None))
             = Some (r, k)"
          by (rule some_case_list)
        from c1 obtain b2 y where bs2: "x = b2 # y"
          and c2: "(case y of [] \<Rightarrow> None
                  | b3 # z \<Rightarrow>
                    if (if b = 0xF0 then 0x90 else 0x80) \<le> b1
                       \<and> b1 \<le> (if b = 0xF4 then 0x8F else 0xBF)
                       \<and> 0x80 \<le> b2 \<and> b2 \<le> 0xBF \<and> 0x80 \<le> b3 \<and> b3 \<le> 0xBF
                    then Some ((b - 0xF0) * 262144 + (b1 - 0x80) * 4096 + (b2 - 0x80) * 64
                               + (b3 - 0x80), 3)
                    else None)
             = Some (r, k)"
          by (rule some_case_list)
        from c2 obtain b3 rest where bs3: "y = b3 # rest"
          and c: "(if (if b = 0xF0 then 0x90 else 0x80) \<le> b1
                       \<and> b1 \<le> (if b = 0xF4 then 0x8F else 0xBF)
                       \<and> 0x80 \<le> b2 \<and> b2 \<le> 0xBF \<and> 0x80 \<le> b3 \<and> b3 \<le> 0xBF
                    then Some ((b - 0xF0) * 262144 + (b1 - 0x80) * 4096 + (b2 - 0x80) * 64
                               + (b3 - 0x80), 3)
                    else None)
             = Some (r, k)"
          by (rule some_case_list)
        from some_if [OF c] have lo: "(if b = 0xF0 then 0x90 else 0x80) \<le> b1"
          and hi: "b1 \<le> (if b = 0xF4 then 0x8F else 0xBF)"
          and b23: "0x80 \<le> b2" "b2 \<le> 0xBF" "0x80 \<le> b3" "b3 \<le> 0xBF"
          and e: "((b - 0xF0) * 262144 + (b1 - 0x80) * 4096 + (b2 - 0x80) * 64 + (b3 - 0x80), 3)
                  = (r, k)"
          by blast+
        from e have rk:
          "r = (b - 0xF0) * 262144 + (b1 - 0x80) * 4096 + (b2 - 0x80) * 64 + (b3 - 0x80)" "k = 3"
          by (simp_all only: prod.inject)
        from lo have l: "0x80 \<le> b1" "b = 0xF0 \<longrightarrow> 0x90 \<le> b1" by (simp_all split: if_splits)
        from hi have h: "b1 \<le> 0xBF" "b = 0xF4 \<longrightarrow> b1 \<le> 0x8F" by (simp_all split: if_splits)
        from bs1 bs2 bs3 have "bs = b1 # b2 # b3 # rest" by simp
        with True l h b23 rk four show ?thesis by blast
      next
        case False
        from assms have "None = Some (r, k)"
          by (simp only: rune_at.simps n1 n2 n3 False if_True if_False simp_thms)
        then show ?thesis by simp
      qed
    qed
  qed
qed


lemma encode_rune_at:
  assumes "rune_at (b # bs) = Some (r, k)"
  shows "encode_rune r = b # take k bs"
  using assms
proof (cases rule: rune_at_cases)
  case one
  then show ?thesis by (simp add: encode_rune_def)
next
  case (two b1 rest)
  define x where "x = b - 0xC0"
  define y where "y = b1 - 0x80"
  from two have bx: "b = 0xC0 + x" and by1: "b1 = 0x80 + y" by (simp_all add: x_def y_def)
  from two have x: "2 \<le> x" "x < 32" and y: "y < 64" unfolding bx by1 by simp_all
  have r: "r = x * 64 + y" unfolding two x_def y_def ..
  from x y have n: "\<not> r < 0x80" "r < 0x800" unfolding r by simp_all
  from split_byte [OF y, of x] have d: "r div 64 = x" "r mod 64 = y" unfolding r by simp_all
  have "encode_rune r = [0xC0 + x, 0x80 + y]"
    by (simp only: encode_rune_def n d if_True if_False)
  then show ?thesis by (simp add: bx by1 two)
next
  case (three b1 b2 rest)
  define x where "x = b - 0xE0"
  define y where "y = b1 - 0x80"
  define z where "z = b2 - 0x80"
  from three have bx: "b = 0xE0 + x" and by1: "b1 = 0x80 + y" and bz: "b2 = 0x80 + z"
    by (simp_all add: x_def y_def z_def)
  from three have x: "x < 16" and y: "y < 64" and z: "z < 64"
    and lo: "x = 0 \<longrightarrow> 32 \<le> y" and hi: "x = 13 \<longrightarrow> y < 32"
    unfolding bx by1 bz by auto
  have r: "r = x * 4096 + y * 64 + z" unfolding three x_def y_def z_def ..
  have "0x800 \<le> r"
  proof (cases "x = 0")
    case True
    with lo show ?thesis unfolding r by simp
  next
    case False
    then have "1 * 4096 \<le> x * 4096" by simp
    then show ?thesis unfolding r by simp
  qed
  then have n1: "\<not> r < 0x80" "\<not> r < 0x800" by simp_all
  have n2: "\<not> ((0xD800 \<le> r \<and> r \<le> 0xDFFF) \<or> 0x10FFFF < r)"
  proof -
    consider "x \<le> 12" | "x = 13" | "14 \<le> x" using x by linarith
    then show ?thesis
    proof cases
      case 1
      then have "x * 4096 \<le> 12 * 4096" by simp
      with y z show ?thesis unfolding r by simp
    next
      case 2
      with hi y z show ?thesis unfolding r by simp
    next
      case 3
      then have "14 * 4096 \<le> x * 4096" by simp
      moreover from x have "x * 4096 \<le> 15 * 4096" by simp
      ultimately show ?thesis using y z unfolding r by simp
    qed
  qed
  from x have "x * 4096 \<le> 15 * 4096" by simp
  with y z have n3: "r < 0x10000" unfolding r by simp
  from split3 [OF y z, of x] have d: "r div 4096 = x" "r div 64 mod 64 = y" "r mod 64 = z"
    unfolding r by simp_all
  have "encode_rune r = [0xE0 + x, 0x80 + y, 0x80 + z]"
    by (simp only: encode_rune_def n1 n2 n3 d if_True if_False)
  then show ?thesis by (simp add: bx by1 bz three)
next
  case (four b1 b2 b3 rest)
  define x where "x = b - 0xF0"
  define y where "y = b1 - 0x80"
  define z where "z = b2 - 0x80"
  define w where "w = b3 - 0x80"
  from four have bx: "b = 0xF0 + x" and by1: "b1 = 0x80 + y" and bz: "b2 = 0x80 + z"
    and bw: "b3 = 0x80 + w"
    by (simp_all add: x_def y_def z_def w_def)
  from four have x: "x \<le> 4" and y: "y < 64" and z: "z < 64" and w: "w < 64"
    and lo: "x = 0 \<longrightarrow> 16 \<le> y" and hi: "x = 4 \<longrightarrow> y < 16"
    unfolding bx by1 bz bw by auto
  have r: "r = x * 262144 + y * 4096 + z * 64 + w" unfolding four x_def y_def z_def w_def ..
  have lower: "0x10000 \<le> r"
  proof (cases "x = 0")
    case True
    with lo have "16 * 4096 \<le> y * 4096" by simp
    then show ?thesis unfolding r by simp
  next
    case False
    then have "1 * 262144 \<le> x * 262144" by simp
    then show ?thesis unfolding r by simp
  qed
  have upper: "r \<le> 0x10FFFF"
  proof (cases "x = 4")
    case True
    with hi have "y * 4096 \<le> 15 * 4096" by simp
    with True z w show ?thesis unfolding r by simp
  next
    case False
    with x have "x * 262144 \<le> 3 * 262144" by simp
    moreover from y have "y * 4096 \<le> 63 * 4096" by simp
    ultimately show ?thesis using z w unfolding r by simp
  qed
  from lower upper have n: "\<not> r < 0x80" "\<not> r < 0x800" "\<not> r < 0x10000"
    "\<not> ((0xD800 \<le> r \<and> r \<le> 0xDFFF) \<or> 0x10FFFF < r)"
    by simp_all
  from split4 [OF y z w, of x]
  have d: "r div 262144 = x" "r div 4096 mod 64 = y" "r div 64 mod 64 = z" "r mod 64 = w"
    unfolding r by simp_all
  have "encode_rune r = [0xF0 + x, 0x80 + y, 0x80 + z, 0x80 + w]"
    by (simp only: encode_rune_def n d if_True if_False)
  then show ?thesis by (simp add: bx by1 bz bw four)
qed

lemma encode_decode_utf8: "valid_utf8 bs \<Longrightarrow> encode_utf8 (decode_utf8 bs) = bs"
proof (induction bs rule: valid_utf8.induct)
  case 1
  then show ?case by (simp add: encode_utf8_def)
next
  case (2 b bs)
  from "2.prems" obtain r k where rk: "rune_at (b # bs) = Some (r, k)"
    by (cases "rune_at (b # bs)") (simp_all only: valid_utf8.simps option.case, fast)
  from "2.prems" have v: "valid_utf8 (drop k bs)"
    by (simp only: valid_utf8.simps rk option.case prod.case)
  from "2.IH" [OF rk refl v] have ih: "encode_utf8 (decode_utf8 (drop k bs)) = drop k bs" .
  have "decode_utf8 (b # bs) = r # decode_utf8 (drop k bs)"
    by (simp only: decode_utf8.simps rk option.case prod.case)
  then have "encode_utf8 (decode_utf8 (b # bs))
      = encode_rune r @ encode_utf8 (decode_utf8 (drop k bs))"
    by (simp only: encode_utf8_def list.map concat.simps)
  also have "\<dots> = (b # take k bs) @ drop k bs" by (simp only: encode_rune_at [OF rk] ih)
  finally show ?case by simp
qed

lemma string_of_json_of_string:
  assumes "valid_utf8 (map of_char s)"
  shows "map char_of (encode_utf8 (decode_utf8 (map of_char s))) = s"
  by (simp add: encode_decode_utf8 [OF assms] comp_def)


lemma sprite_round_trip:
  assumes "sprite_ints s" and "valid_utf8 (map of_char (spr_Name s))"
  shows "sprite_of_json (json_of_sprite s) = Some s"
proof -
  from assms(1) have i: "in64 (spr_X s)" "in64 (spr_Y s)" "in64 (spr_Width s)"
    "in64 (spr_Height s)" "in64 (spr_Index s)"
    by (simp_all add: sprite_ints_def)
  note n = string_of_json_of_string [OF assms(2)]
  show ?thesis
    by (simp add: sprite_of_json_def json_of_sprite_def member_int_def member_string_def
        json_of_string_def i n)
qed

lemma sprites_round_trip:
  assumes "list_all sprite_ints ss" and "list_all (\<lambda>s. valid_utf8 (map of_char (spr_Name s))) ss"
  shows "those (map sprite_of_json (map json_of_sprite ss)) = Some ss"
  using assms by (induction ss) (simp_all add: sprite_round_trip)

lemma metadata_round_trip:
  assumes "metadata_ints m" and "names_valid m"
  shows "metadata_of_json (json_of_metadata m) = Some m"
proof -
  from assms(1) have i: "in64 (meta_Width m)" "in64 (meta_Height m)" "in64 (meta_TileWidth m)"
    "in64 (meta_TileHeight m)" "in64 (meta_Cols m)" "in64 (meta_Rows m)" "in64 (meta_Padding m)"
    and s: "list_all sprite_ints (meta_Sprites m)"
    by (simp_all add: metadata_ints_def)
  from assms(2) have "list_all (\<lambda>s. valid_utf8 (map of_char (spr_Name s))) (meta_Sprites m)"
    by (simp add: names_valid_def)
  note sprites_round_trip [OF s this]
  then show ?thesis
    by (simp add: metadata_of_json_def json_of_metadata_def member_int_def member_sprites_def i)
qed

lemma json_of_invalid_byte:
  "metadata_of_json (json_of_metadata (sheet_of [CHR 0xFF]))
   = Some (sheet_of [CHR 0xEF, CHR 0xBF, CHR 0xBD])"
proof -
  have "rune_at [255] = None" by simp
  then have "decode_utf8 [255] = [0xFFFD]" by simp
  moreover have "encode_rune 0xFFFD = [0xEF, 0xBF, 0xBD]" by (simp add: encode_rune_def)
  moreover have "map char_of [0xEF, 0xBF, 0xBD :: nat] = [CHR 0xEF, CHR 0xBF, CHR 0xBD]"
    by (simp add: char_of_def bit_Suc bit_0)
  ultimately have n: "map char_of (encode_utf8 (decode_utf8 [255]))
      = [CHR 0xEF, CHR 0xBF, CHR 0xBD]"
    by (simp only: encode_utf8_def list.map concat.simps append_Nil2)
  show ?thesis
    by (simp add: metadata_of_json_def json_of_metadata_def member_int_def member_sprites_def
        sprite_of_json_def json_of_sprite_def member_string_def json_of_string_def sheet_of_def
        in64_def n del: decode_utf8.simps)
qed

text \<open>
  C8 (as the code has it).  A metadata value whose sprite names are valid UTF-8 comes
  back from the file that \<open>Export\<close> wrote as the value that was exported.
\<close>

theorem Export_LoadMetadata_valid_names:
  assumes "metadata_ints m" and "names_valid m"
    and "Export files m path = (files', None)"
  shows "LoadMetadata files' path = Inr m"
proof -
  from assms(3) have "file_content files' path = Some (json_of_metadata m)"
    by (auto simp: Export_def Let_def split: option.splits)
  then show ?thesis by (simp add: LoadMetadata_def metadata_round_trip [OF assms(1,2)])
qed

theorem Export_LoadMetadata_valid_names_witness:
  "metadata_ints (sheet_of ''walk'') \<and> names_valid (sheet_of ''walk'')
   \<and> snd (Export no_files (sheet_of ''walk'') ''sheet.json'') = None
   \<and> LoadMetadata (fst (Export no_files (sheet_of ''walk'') ''sheet.json'')) ''sheet.json''
       = Inr (sheet_of ''walk'')"
proof -
  have i: "metadata_ints (sheet_of ''walk'')"
    by (simp add: metadata_ints_def sprite_ints_def sheet_of_def in64_def)
  have v: "names_valid (sheet_of ''walk'')" by (simp add: names_valid_def sheet_of_def)
  have s: "snd (Export no_files (sheet_of ''walk'') ''sheet.json'') = None"
    by (simp add: Export_def no_files_def)
  then have e: "Export no_files (sheet_of ''walk'') ''sheet.json''
      = (fst (Export no_files (sheet_of ''walk'') ''sheet.json''), None)"
    by (simp add: prod_eq_iff)
  from Export_LoadMetadata_valid_names [OF i v e] i v s show ?thesis by blast
qed

text \<open>
  The claim C8 as it is written fails for a sprite name that is not valid UTF-8: the
  name that is one byte \<open>0xFF\<close> comes back as the three bytes of \<open>U+FFFD\<close>.
\<close>

theorem Export_LoadMetadata_counterexample:
  "metadata_ints (sheet_of [CHR 0xFF])
   \<and> snd (Export no_files (sheet_of [CHR 0xFF]) ''sheet.json'') = None
   \<and> LoadMetadata (fst (Export no_files (sheet_of [CHR 0xFF]) ''sheet.json'')) ''sheet.json''
       = Inr (sheet_of [CHR 0xEF, CHR 0xBF, CHR 0xBD])
   \<and> sheet_of [CHR 0xEF, CHR 0xBF, CHR 0xBD] \<noteq> sheet_of [CHR 0xFF]"
proof -
  have i: "metadata_ints (sheet_of [CHR 0xFF])"
    by (simp add: metadata_ints_def sprite_ints_def sheet_of_def in64_def)
  have e: "Export no_files (sheet_of [CHR 0xFF]) ''sheet.json''
      = (no_files\<lparr>file_content := (file_content no_files)(''sheet.json'' \<mapsto>
           json_of_metadata (sheet_of [CHR 0xFF]))\<rparr>, None)"
    by (simp add: Export_def no_files_def)
  have l: "LoadMetadata (fst (Export no_files (sheet_of [CHR 0xFF]) ''sheet.json'')) ''sheet.json''
       = Inr (sheet_of [CHR 0xEF, CHR 0xBF, CHR 0xBD])"
    by (simp add: e LoadMetadata_def json_of_invalid_byte)
  have d: "sheet_of [CHR 0xEF, CHR 0xBF, CHR 0xBD] \<noteq> sheet_of [CHR 0xFF]"
    by (simp add: sheet_of_def)
  have s: "snd (Export no_files (sheet_of [CHR 0xFF]) ''sheet.json'') = None"
    by (simp add: e)
  from i s l d show ?thesis by blast
qed


end
